theory Spec2Isabelle
  imports Main "HOL-Library.Word"
begin

unbundle bit_operations_syntax

section \<open>Bytes and strings\<close>

text \<open>
  A Go \<^verbatim>\<open>string\<close> and a \<^verbatim>\<open>[]byte\<close> are sequences of bytes; both are modelled by
  \<^typ>\<open>string\<close>, whose characters are exactly the 256 byte values. \<open>byte c\<close> is the
  numeric value of a byte.
\<close>

definition byte :: "char \<Rightarrow> nat" where
  "byte c = of_char c"

definition ESC :: char where
  "ESC = CHR 0x1B"

definition bslash :: char where
  "bslash = CHR 0x5C"

definition quote :: char where
  "quote = CHR 0x22"

definition newline :: char where
  "newline = CHR 0x0A"

definition CR :: char where
  "CR = CHR 0x0D"

section \<open>unicode/utf8: decoding one rune\<close>

text \<open>
  \<^verbatim>\<open>utf8.DecodeRuneInString\<close> of the Go standard library, which \<^verbatim>\<open>encoding/json\<close> calls on
  every byte that is not ASCII. The table \<^verbatim>\<open>first\<close> gives the length of the sequence a
  lead byte starts (\<open>firstSize\<close>, 0 for a byte that cannot start one) and
  \<^verbatim>\<open>acceptRanges\<close> the range allowed for the second byte. The result is the rune and the
  number of bytes it takes; an invalid sequence gives \<open>(RuneError, 1)\<close>.
\<close>

definition RuneError :: nat where
  "RuneError = 0xFFFD"

definition RuneSelf :: nat where
  "RuneSelf = 0x80"

definition UTFMax :: nat where
  "UTFMax = 4"

definition firstSize :: "nat \<Rightarrow> nat" where
  "firstSize s0 =
     (if s0 < 0x80 then 1
      else if s0 < 0xC2 then 0
      else if s0 < 0xE0 then 2
      else if s0 < 0xF0 then 3
      else if s0 < 0xF5 then 4
      else 0)"

definition acceptLo :: "nat \<Rightarrow> nat" where
  "acceptLo s0 = (if s0 = 0xE0 then 0xA0 else if s0 = 0xF0 then 0x90 else 0x80)"

definition acceptHi :: "nat \<Rightarrow> nat" where
  "acceptHi s0 = (if s0 = 0xED then 0x9F else if s0 = 0xF4 then 0x8F else 0xBF)"

definition rune2 :: "nat \<Rightarrow> nat \<Rightarrow> nat" where
  "rune2 s0 s1 = push_bit 6 (s0 AND 0x1F) OR (s1 AND 0x3F)"

definition rune3 :: "nat \<Rightarrow> nat \<Rightarrow> nat \<Rightarrow> nat" where
  "rune3 s0 s1 s2 = push_bit 12 (s0 AND 0x0F) OR push_bit 6 (s1 AND 0x3F) OR (s2 AND 0x3F)"

definition rune4 :: "nat \<Rightarrow> nat \<Rightarrow> nat \<Rightarrow> nat \<Rightarrow> nat" where
  "rune4 s0 s1 s2 s3 =
     push_bit 18 (s0 AND 0x07) OR push_bit 12 (s1 AND 0x3F)
       OR push_bit 6 (s2 AND 0x3F) OR (s3 AND 0x3F)"

definition DecodeRuneInString :: "string \<Rightarrow> nat \<times> nat" where
  "DecodeRuneInString s =
     (if length s < 1 then (RuneError, 0)
      else
        let s0 = byte (s ! 0) in
        if s0 < RuneSelf then (s0, 1)
        else if firstSize s0 = 0 then (RuneError, 1)
        else
          let sz = firstSize s0 in
          if length s < sz then (RuneError, 1)
          else
            let s1 = byte (s ! 1) in
            if s1 < acceptLo s0 \<or> acceptHi s0 < s1 then (RuneError, 1)
            else if sz \<le> 2 then (rune2 s0 s1, 2)
            else
              let s2 = byte (s ! 2) in
              if s2 < 0x80 \<or> 0xBF < s2 then (RuneError, 1)
              else if sz \<le> 3 then (rune3 s0 s1 s2, 3)
              else
                let s3 = byte (s ! 3) in
                if s3 < 0x80 \<or> 0xBF < s3 then (RuneError, 1)
                else (rune4 s0 s1 s2 s3, 4))"

section \<open>encoding/json: strings and string slices\<close>

text \<open>
  \<^verbatim>\<open>json.Marshal\<close> encodes a value of string kind with \<^verbatim>\<open>appendString\<close> and HTML escaping
  switched on. \<open>htmlSafe\<close> is the table \<^verbatim>\<open>htmlSafeSet\<close>: the ASCII bytes copied as they
  are. Every other ASCII byte is replaced by an escape sequence (\<open>escapeByte\<close>), an invalid
  UTF-8 byte by the six characters backslash, u, f, f, f, d, the runes U+2028 and U+2029
  by backslash, u, 2, 0, 2 and their last hexadecimal digit, and every other rune is
  copied. The source keeps an index \<^verbatim>\<open>start\<close> and copies the bytes between two escapes in
  one piece; the model emits them one rune at a time, which gives the same bytes. The
  short escapes of backspace and form feed are those of Go 1.22 and later; earlier
  releases write the six-character form for these two bytes.
\<close>

definition hex :: "nat \<Rightarrow> char" where
  "hex n = ''0123456789abcdef'' ! n"

definition htmlSafe :: "char \<Rightarrow> bool" where
  "htmlSafe b = (0x20 \<le> byte b \<and> byte b < 0x80 \<and> b \<noteq> quote \<and> b \<noteq> bslash
                 \<and> b \<noteq> CHR ''<'' \<and> b \<noteq> CHR ''>'' \<and> b \<noteq> CHR ''&'')"

definition escapeByte :: "char \<Rightarrow> string" where
  "escapeByte b =
     (if b = bslash \<or> b = quote then [bslash, b]
      else if b = CHR 0x08 then [bslash, CHR ''b'']
      else if b = CHR 0x0C then [bslash, CHR ''f'']
      else if b = CHR 0x0A then [bslash, CHR ''n'']
      else if b = CHR 0x0D then [bslash, CHR ''r'']
      else if b = CHR 0x09 then [bslash, CHR ''t'']
      else [bslash, CHR ''u'', CHR ''0'', CHR ''0'', hex (drop_bit 4 (byte b)), hex (byte b AND 0xF)])"

function appendStringBody :: "string \<Rightarrow> string" where
  "appendStringBody [] = []"
| "appendStringBody (b # bs) =
     (if byte b < RuneSelf then
        (if htmlSafe b then [b] else escapeByte b) @ appendStringBody bs
      else
        (case DecodeRuneInString (take UTFMax (b # bs)) of
           (c, width) \<Rightarrow>
             if c = RuneError \<and> width = 1 then
               [bslash, CHR ''u'', CHR ''f'', CHR ''f'', CHR ''f'', CHR ''d'']
                 @ appendStringBody (drop width (b # bs))
             else if c = 0x2028 \<or> c = 0x2029 then
               [bslash, CHR ''u'', CHR ''2'', CHR ''0'', CHR ''2'', hex (c AND 0xF)]
                 @ appendStringBody (drop width (b # bs))
             else
               take width (b # bs) @ appendStringBody (drop width (b # bs))))"
  by pat_completeness auto
termination
proof (relation "measure length", goal_cases)
  case 1
  show ?case by simp
next
  case (2 b bs)
  show ?case by simp
next
  case (3 b bs c w)
  then have "0 < w"
    by (auto simp: DecodeRuneInString_def UTFMax_def Let_def split: if_splits)
  then show ?case by simp
next
  case (4 b bs c w)
  then have "0 < w"
    by (auto simp: DecodeRuneInString_def UTFMax_def Let_def split: if_splits)
  then show ?case by simp
next
  case (5 b bs c w)
  then have "0 < w"
    by (auto simp: DecodeRuneInString_def UTFMax_def Let_def split: if_splits)
  then show ?case by simp
qed

definition appendString :: "string \<Rightarrow> string" where
  "appendString src = quote # appendStringBody src @ [quote]"

text \<open>
  Go errors are values; the ones that occur here are the scanner's \<^verbatim>\<open>ErrTooLong\<close> and
  whatever error an encoder or a sink reports, kept by its message.
\<close>

datatype error = ErrTooLong | OtherError string

text \<open>
  \<^verbatim>\<open>json.Marshal\<close> returns the encoding or an error. For a value of string kind (a
  \<^verbatim>\<open>Level\<close>) it is the quoted string. For a \<^verbatim>\<open>[]string\<close> it is \<^verbatim>\<open>null\<close> when the slice is
  nil (\<open>None\<close>) and otherwise the elements between brackets, a comma before every element
  but the first (the loop of \<^verbatim>\<open>arrayEncoder\<close>, counted by \<open>i\<close>). Neither encoder has an
  error branch.
\<close>

definition Marshal_string :: "string \<Rightarrow> error + string" where
  "Marshal_string v = Inr (appendString v)"

fun arrayElems :: "nat \<Rightarrow> string list \<Rightarrow> string" where
  "arrayElems i [] = []"
| "arrayElems i (x # xs) =
     (if 0 < i then '','' else []) @ appendString x @ arrayElems (i + 1) xs"

definition Marshal_strings :: "string list option \<Rightarrow> error + string" where
  "Marshal_strings v =
     (case v of
        None \<Rightarrow> Inr ''null''
      | Some xs \<Rightarrow> Inr (''['' @ arrayElems 0 xs @ '']''))"

section \<open>Framing of a payload\<close>

text \<open>
  A payload keeps the framing of the control sequence when, read from left to right, it
  is made of ordinary bytes, none of them the escape byte or a backslash, and of
  two-byte escapes: a backslash followed by one of the characters JSON allows after it.
  Then every backslash of the payload either starts an escape or is the escaped byte of
  one, and the escape byte does not occur.
\<close>

definition escapeChars :: string where
  "escapeChars = [quote, bslash, CHR ''/'', CHR ''b'', CHR ''f'', CHR ''n'', CHR ''r'', CHR ''t'', CHR ''u'']"

fun wellEscaped :: "string \<Rightarrow> bool" where
  "wellEscaped [] = True"
| "wellEscaped [c] = (c \<noteq> ESC \<and> c \<noteq> bslash)"
| "wellEscaped (c # d # cs) =
     (if c = bslash then d \<in> set escapeChars \<and> wellEscaped cs
      else c \<noteq> ESC \<and> wellEscaped (d # cs))"

section \<open>fmt.Sprint\<close>

text \<open>
  \<^verbatim>\<open>Print\<close> formats its operands with \<^verbatim>\<open>fmt.Sprint\<close>. An operand is kept as what
  \<^verbatim>\<open>doPrint\<close> asks of it: whether its kind is string, and the bytes its default format
  prints; a Go string \<open>m\<close> is \<open>Operand True m\<close>. \<^verbatim>\<open>doPrint\<close> writes the operands in order
  and puts a space between two operands when neither is a string.
\<close>

datatype operand = Operand (isString: bool) (rendered: string)

fun doPrint :: "nat \<Rightarrow> bool \<Rightarrow> operand list \<Rightarrow> string" where
  "doPrint argNum prevString [] = []"
| "doPrint argNum prevString (arg # a) =
     (if 0 < argNum \<and> \<not> isString arg \<and> \<not> prevString then '' '' else [])
       @ rendered arg @ doPrint (argNum + 1) (isString arg) a"

definition Sprint :: "operand list \<Rightarrow> string" where
  "Sprint v = doPrint 0 False v"

section \<open>Levels\<close>

type_synonym Level = string

definition FatalLevel :: Level where "FatalLevel = ''fatal''"
definition ErrorLevel :: Level where "ErrorLevel = ''error''"
definition WarnLevel :: Level where "WarnLevel = ''warn''"
definition InfoLevel :: Level where "InfoLevel = ''info''"
definition VerboseLevel :: Level where "VerboseLevel = ''verbose''"
definition DebugLevel :: Level where "DebugLevel = ''debug''"
definition SpamLevel :: Level where "SpamLevel = ''spam''"
definition DefaultLevel :: Level where "DefaultLevel = InfoLevel"

definition levelsMap :: "string \<rightharpoonup> Level" where
  "levelsMap = map_of
     [(FatalLevel, FatalLevel), (ErrorLevel, ErrorLevel), (WarnLevel, WarnLevel),
      (InfoLevel, InfoLevel), (VerboseLevel, VerboseLevel), (DebugLevel, DebugLevel),
      (SpamLevel, SpamLevel)]"

text \<open>
  \<^verbatim>\<open>unicode.ToLower\<close> maps an ASCII rune by itself and every other rune through the
  case table of the Unicode package, \<^verbatim>\<open>To(LowerCase, r)\<close>. Two entries of that table are
  written out, the only ones that lead from a rune above ASCII to an ASCII rune: U+0130,
  the capital I with a dot above, goes to \<^verbatim>\<open>i\<close>, and U+212A, the Kelvin sign, goes to
  \<^verbatim>\<open>k\<close>. The rest of the table is the parameter \<open>caseTable\<close>; all that the statements
  below assume of it is that its values are runes above ASCII.
\<close>

definition MaxASCII :: nat where
  "MaxASCII = 0x7F"

definition MaxRune :: nat where
  "MaxRune = 0x10FFFF"

definition To_LowerCase :: "(nat \<Rightarrow> int) \<Rightarrow> nat \<Rightarrow> int" where
  "To_LowerCase caseTable r =
     (if r = 0x130 then 0x69 else if r = 0x212A then 0x6B else caseTable r)"

definition unicode_ToLower :: "(nat \<Rightarrow> int) \<Rightarrow> nat \<Rightarrow> int" where
  "unicode_ToLower caseTable r =
     (if r \<le> MaxASCII then
        (if byte (CHR ''A'') \<le> r \<and> r \<le> byte (CHR ''Z'')
         then int (r + (byte (CHR ''a'') - byte (CHR ''A''))) else int r)
      else To_LowerCase caseTable r)"

text \<open>
  \<^verbatim>\<open>utf8.AppendRune\<close>: the UTF-8 bytes of a rune; a surrogate and a rune beyond
  \<open>MaxRune\<close> are written as \<open>RuneError\<close>.
\<close>

definition appendRune3 :: "nat \<Rightarrow> string" where
  "appendRune3 r =
     [char_of (0xE0 OR drop_bit 12 r), char_of (0x80 OR (drop_bit 6 r AND 0x3F)),
      char_of (0x80 OR (r AND 0x3F))]"

definition AppendRune :: "nat \<Rightarrow> string" where
  "AppendRune r =
     (if r \<le> 0x7F then [char_of r]
      else if r \<le> 0x7FF then [char_of (0xC0 OR drop_bit 6 r), char_of (0x80 OR (r AND 0x3F))]
      else if MaxRune < r \<or> (0xD800 \<le> r \<and> r \<le> 0xDFFF) then appendRune3 RuneError
      else if r \<le> 0xFFFF then appendRune3 r
      else
        [char_of (0xF0 OR drop_bit 18 r), char_of (0x80 OR (drop_bit 12 r AND 0x3F)),
         char_of (0x80 OR (drop_bit 6 r AND 0x3F)), char_of (0x80 OR (r AND 0x3F))])"

text \<open>
  \<^verbatim>\<open>strings.Map(mapping, s)\<close> has two loops over the runes of \<open>s\<close>, read as a range loop
  reads them (an invalid byte is the rune \<open>RuneError\<close> of width 1). The first loop,
  \<open>strings_Map\<close>, keeps the bytes of every rune that the mapping leaves as it is, up to
  the first rune that the mapping changes or that is an invalid byte; it writes the
  image of that rune, unless it is negative, and hands the rest of the string to the
  second loop, \<open>mapRest\<close>, which writes the image of every rune, a single byte when the
  image is ASCII. The width by which the first loop steps over a valid rune is
  \<^verbatim>\<open>utf8.RuneLen\<close> of it in the source, which is the width the decoder found.
\<close>

function mapRest :: "(nat \<Rightarrow> int) \<Rightarrow> string \<Rightarrow> string" where
  "mapRest mapping [] = []"
| "mapRest mapping (b # bs) =
     (case DecodeRuneInString (b # bs) of
        (c, width) \<Rightarrow>
          (if 0 \<le> mapping c then
             (if mapping c < int RuneSelf then [char_of (nat (mapping c))]
              else AppendRune (nat (mapping c)))
           else [])
            @ mapRest mapping (drop width (b # bs)))"
  by pat_completeness auto
termination
proof (relation "measure (\<lambda>(mapping, s). length s)", goal_cases)
  case 1
  show ?case by simp
next
  case (2 mapping b bs c w)
  then have "0 < w"
    by (auto simp: DecodeRuneInString_def Let_def split: if_splits)
  then show ?case by simp
qed

function strings_Map :: "(nat \<Rightarrow> int) \<Rightarrow> string \<Rightarrow> string" where
  "strings_Map mapping [] = []"
| "strings_Map mapping (b # bs) =
     (case DecodeRuneInString (b # bs) of
        (c, width) \<Rightarrow>
          if mapping c = int c \<and> \<not> (c = RuneError \<and> width = 1) then
            take width (b # bs) @ strings_Map mapping (drop width (b # bs))
          else
            (if 0 \<le> mapping c then AppendRune (nat (mapping c)) else [])
              @ mapRest mapping (drop width (b # bs)))"
  by pat_completeness auto
termination
proof (relation "measure (\<lambda>(mapping, s). length s)", goal_cases)
  case 1
  show ?case by simp
next
  case (2 mapping b bs c w)
  then have "0 < w"
    by (auto simp: DecodeRuneInString_def Let_def split: if_splits)
  then show ?case by simp
qed

text \<open>
  \<^verbatim>\<open>strings.ToLower\<close> has two paths. A string of ASCII bytes only is returned as it is
  when it has no upper-case letter, and otherwise with \<^verbatim>\<open>'a' - 'A'\<close> added to every byte
  between \<^verbatim>\<open>'A'\<close> and \<^verbatim>\<open>'Z'\<close>. Any other string goes through
  \<^verbatim>\<open>strings.Map(unicode.ToLower, s)\<close>.
\<close>

definition isASCII :: "string \<Rightarrow> bool" where
  "isASCII s = list_all (\<lambda>c. byte c < RuneSelf) s"

definition isUpper :: "char \<Rightarrow> bool" where
  "isUpper c = (byte (CHR ''A'') \<le> byte c \<and> byte c \<le> byte (CHR ''Z''))"

definition lowerByte :: "char \<Rightarrow> char" where
  "lowerByte c = (if isUpper c then char_of (byte c + (byte (CHR ''a'') - byte (CHR ''A''))) else c)"

definition ToLower :: "(nat \<Rightarrow> int) \<Rightarrow> string \<Rightarrow> string" where
  "ToLower caseTable s =
     (if isASCII s then (if \<not> list_ex isUpper s then s else map lowerByte s)
      else strings_Map (unicode_ToLower caseTable) s)"

definition ParseLevel :: "(nat \<Rightarrow> int) \<Rightarrow> string \<Rightarrow> Level \<times> bool" where
  "ParseLevel caseTable s =
     (case levelsMap (ToLower caseTable s) of
        Some lv \<Rightarrow> (lv, True)
      | None \<Rightarrow> (DefaultLevel, False))"

text \<open>
  The reading of "letter-case variant" the statements below use for ASCII strings:
  \<open>s\<close> has the length of the name and every byte of \<open>s\<close> is the byte of the name at that
  place or, when that one is a lower-case letter, its upper-case form.
\<close>

definition isLower :: "char \<Rightarrow> bool" where
  "isLower c = (byte (CHR ''a'') \<le> byte c \<and> byte c \<le> byte (CHR ''z''))"

definition caseVariant :: "string \<Rightarrow> string \<Rightarrow> bool" where
  "caseVariant s name = list_all2 (\<lambda>c d. c = d \<or> (isLower d \<and> byte c + 32 = byte d)) s name"

definition levelNames :: "string list" where
  "levelNames = [''fatal'', ''error'', ''warn'', ''info'', ''verbose'', ''debug'', ''spam'']"

definition isSpace :: "char \<Rightarrow> bool" where
  "isSpace c = (c = CHR '' '' \<or> c = CHR 0x09 \<or> c = CHR 0x0A \<or> c = CHR 0x0B \<or> c = CHR 0x0C \<or> c = CHR 0x0D)"

text \<open>
  The same reading for any string, by runes: the runes of \<open>s\<close>, as a range loop reads
  them, are as many as the bytes of the name, and each of them is the letter of the name
  at that place, its upper-case form, or the rune above ASCII that Unicode lower-cases to
  that letter: U+0130 for \<^verbatim>\<open>i\<close> and U+212A for \<^verbatim>\<open>k\<close>.
\<close>

function runes :: "string \<Rightarrow> nat list" where
  "runes [] = []"
| "runes (b # bs) =
     (case DecodeRuneInString (b # bs) of (c, width) \<Rightarrow> c # runes (drop width (b # bs)))"
  by pat_completeness auto
termination
proof (relation "measure length", goal_cases)
  case 1
  show ?case by simp
next
  case (2 b bs c w)
  then have "0 < w"
    by (auto simp: DecodeRuneInString_def Let_def split: if_splits)
  then show ?case by simp
qed

definition lowersTo :: "nat \<Rightarrow> char \<Rightarrow> bool" where
  "lowersTo c d =
     (c = byte d \<or> c + 32 = byte d \<or> (c = 0x130 \<and> d = CHR ''i'') \<or> (c = 0x212A \<and> d = CHR ''k''))"

definition unicodeVariant :: "string \<Rightarrow> string \<Rightarrow> bool" where
  "unicodeVariant s name = list_all2 lowersTo (runes s) name"

text \<open>
  A case table without any pair of its own: every rune above ASCII is its own lower
  case.
\<close>

definition plainTable :: "nat \<Rightarrow> int" where
  "plainTable r = max 0x80 (int r)"

section \<open>The store: loggers, string slices, sinks\<close>

text \<open>
  A \<^verbatim>\<open>*Logger\<close> is a reference to a Logger struct, a \<^verbatim>\<open>[]string\<close> is nil or a view
  (array, offset, length) of a backing array that other slices may share, and an
  \<^verbatim>\<open>io.Writer\<close> is a reference to a sink. The store holds the three kinds of objects in
  lists and a reference is an index; a new object goes to the end of its list. A
  reference beyond the end of its list denotes no object and plays the nil reference:
  dereferencing it is Go's nil-dereference panic, the result \<open>None\<close> of an operation.

  A sink records the byte sequence of every \<^verbatim>\<open>Write\<close> call it receives, in order, and
  answers each call with a count and an optional error (\<open>reply\<close>).
\<close>

datatype slice = NilSlice | Slice nat nat nat

record Logger =
  "output" :: nat
  tags :: slice
  level :: Level
  linePrefix :: string

record sink =
  received :: "string list"
  reply :: "string \<Rightarrow> nat \<times> error option"

record state =
  loggers :: "Logger list"
  arrays :: "string list list"
  sinks :: "sink list"

fun sliceLen :: "slice \<Rightarrow> nat" where
  "sliceLen NilSlice = 0"
| "sliceLen (Slice a off n) = n"

fun sliceElems :: "string list list \<Rightarrow> slice \<Rightarrow> string list" where
  "sliceElems as NilSlice = []"
| "sliceElems as (Slice a off n) = take n (drop off (as ! a))"

fun sliceValue :: "string list list \<Rightarrow> slice \<Rightarrow> string list option" where
  "sliceValue as NilSlice = None"
| "sliceValue as (Slice a off n) = Some (sliceElems as (Slice a off n))"

text \<open>
  Go has no dangling slice: the array of a slice exists and holds its window.
  \<open>validSlice\<close> says so, and \<open>wellFormed\<close> says it of the tags of every logger.
\<close>

fun validSlice :: "string list list \<Rightarrow> slice \<Rightarrow> bool" where
  "validSlice as NilSlice = True"
| "validSlice as (Slice a off n) = (a < length as \<and> off + n \<le> length (as ! a))"

definition wellFormed :: "state \<Rightarrow> bool" where
  "wellFormed s = list_all (\<lambda>lg. validSlice (arrays s) (tags lg)) (loggers s)"

definition deref :: "state \<Rightarrow> nat \<Rightarrow> Logger option" where
  "deref s l = (if l < length (loggers s) then Some (loggers s ! l) else None)"

text \<open>
  What the caller does with slices: building one from given elements (a slice literal,
  or the slice Go builds for the arguments of a variadic call, which is nil when there
  is no argument) and assigning to an element, \<^verbatim>\<open>r[i] = v\<close>, which panics out of range.
\<close>

definition makeSlice :: "state \<Rightarrow> string list \<Rightarrow> state \<times> slice" where
  "makeSlice s xs =
     (s\<lparr>arrays := arrays s @ [xs]\<rparr>, Slice (length (arrays s)) 0 (length xs))"

definition variadic :: "state \<Rightarrow> string list \<Rightarrow> state \<times> slice" where
  "variadic s xs = (if xs = [] then (s, NilSlice) else makeSlice s xs)"

fun setIndex :: "state \<Rightarrow> slice \<Rightarrow> nat \<Rightarrow> string \<Rightarrow> state option" where
  "setIndex s NilSlice i v = None"
| "setIndex s (Slice a off n) i v =
     (if i < n then Some (s\<lparr>arrays := (arrays s)[a := (arrays s ! a)[off + i := v]]\<rparr>)
      else None)"

section \<open>The prefix encoder\<close>

text \<open>
  \<^verbatim>\<open>updateLinePrefix\<close> marshals the level and the tags, replaces a failed encoding by a
  default (\<open>levelField\<close>, \<open>tagsField\<close>: the values of the local variables \<^verbatim>\<open>level\<close> and
  \<^verbatim>\<open>tags\<close> after the two \<^verbatim>\<open>if\<close> statements) and formats the prefix (\<open>formatPrefix\<close>, the
  \<^verbatim>\<open>fmt.Sprintf\<close> call). \<open>encodePrefix\<close> is the whole encoder as a function of the level and
  the value of the tags.
\<close>

definition levelField :: "error + string \<Rightarrow> string" where
  "levelField r = (case r of Inl err \<Rightarrow> [quote] @ DefaultLevel @ [quote] | Inr lv \<Rightarrow> lv)"

definition tagsField :: "error + string \<Rightarrow> string" where
  "tagsField r =
     (case r of
        Inl err \<Rightarrow> ''[]''
      | Inr ts \<Rightarrow> if ts = ''null'' then ''[]'' else ts)"

definition formatPrefix :: "string \<Rightarrow> string \<Rightarrow> string" where
  "formatPrefix lv ts =
     [ESC] @ ''_klio_log_level '' @ lv @ [ESC, bslash]
       @ [ESC] @ ''_klio_tags '' @ ts @ [ESC, bslash]"

definition encodePrefix :: "Level \<Rightarrow> string list option \<Rightarrow> string" where
  "encodePrefix lv tv =
     formatPrefix (levelField (Marshal_string lv)) (tagsField (Marshal_strings tv))"

definition updateLinePrefix :: "string list list \<Rightarrow> Logger \<Rightarrow> Logger" where
  "updateLinePrefix as l =
     l\<lparr>linePrefix := encodePrefix (level l) (sliceValue as (tags l))\<rparr>"

section \<open>The Logger\<close>

text \<open>
  Every operation takes the store and returns the new store with its result. \<^verbatim>\<open>New\<close>
  builds the struct with the empty, non-nil slice \<^verbatim>\<open>[]string{}\<close>, computes the prefix and
  returns the reference of the new logger.
\<close>

definition New :: "state \<Rightarrow> nat \<Rightarrow> state \<times> nat" where
  "New s out =
     (let as = arrays s @ [[]];
          l = updateLinePrefix as
                \<lparr>output = out, tags = Slice (length (arrays s)) 0 0, level = DefaultLevel,
                 linePrefix = []\<rparr>
      in (s\<lparr>loggers := loggers s @ [l], arrays := as\<rparr>, length (loggers s)))"

text \<open>
  \<^verbatim>\<open>copy(dst, src)\<close> overwrites the first \<^verbatim>\<open>min(len(dst), len(src))\<close> elements of \<open>dst\<close>.
  \<^verbatim>\<open>Tags\<close> makes a new array of the length of the tags, filled with empty strings, and
  copies the tags into it.
\<close>

definition copySlice :: "'a list \<Rightarrow> 'a list \<Rightarrow> 'a list" where
  "copySlice dst src =
     take (min (length dst) (length src)) src @ drop (min (length dst) (length src)) dst"

definition Tags :: "state \<Rightarrow> nat \<Rightarrow> (state \<times> slice) option" where
  "Tags s l =
     (case deref s l of
        None \<Rightarrow> None
      | Some lg \<Rightarrow>
          let n = sliceLen (tags lg);
              r = copySlice (replicate n []) (sliceElems (arrays s) (tags lg))
          in Some (s\<lparr>arrays := arrays s @ [r]\<rparr>, Slice (length (arrays s)) 0 n))"

text \<open>
  The strings a call of \<^verbatim>\<open>Tags()\<close> returns, read off the returned slice.
\<close>

definition tagsOf :: "state \<Rightarrow> nat \<Rightarrow> string list option" where
  "tagsOf s l = map_option (\<lambda>(s', r). sliceElems (arrays s') r) (Tags s l)"

definition Level :: "state \<Rightarrow> nat \<Rightarrow> Level option" where
  "Level s l = map_option level (deref s l)"

definition Output :: "state \<Rightarrow> nat \<Rightarrow> nat option" where
  "Output s l = map_option output (deref s l)"

definition SetOutput :: "state \<Rightarrow> nat \<Rightarrow> nat \<Rightarrow> state option" where
  "SetOutput s l out =
     (case deref s l of
        None \<Rightarrow> None
      | Some lg \<Rightarrow> Some (s\<lparr>loggers := (loggers s)[l := lg\<lparr>output := out\<rparr>]\<rparr>))"

text \<open>
  \<^verbatim>\<open>WithLevel\<close> and \<^verbatim>\<open>WithTags\<close> copy the struct (\<^verbatim>\<open>n := *l\<close>), change one field of the
  copy, recompute its prefix and return a reference to it. The copy shares the tags
  array with the receiver, and \<^verbatim>\<open>WithTags\<close> stores the slice it is given, not a copy.
\<close>

definition WithLevel :: "state \<Rightarrow> nat \<Rightarrow> Level \<Rightarrow> (state \<times> nat) option" where
  "WithLevel s l lv =
     (case deref s l of
        None \<Rightarrow> None
      | Some lg \<Rightarrow>
          let n = updateLinePrefix (arrays s) (lg\<lparr>level := lv\<rparr>)
          in Some (s\<lparr>loggers := loggers s @ [n]\<rparr>, length (loggers s)))"

definition WithTags :: "state \<Rightarrow> nat \<Rightarrow> slice \<Rightarrow> (state \<times> nat) option" where
  "WithTags s l ts =
     (case deref s l of
        None \<Rightarrow> None
      | Some lg \<Rightarrow>
          let n = updateLinePrefix (arrays s) (lg\<lparr>tags := ts\<rparr>)
          in Some (s\<lparr>loggers := loggers s @ [n]\<rparr>, length (loggers s)))"

text \<open>
  \<^verbatim>\<open>Print\<close> builds the line from the cached prefix, the formatted operands and the reset
  suffix, hands it to the sink in one \<^verbatim>\<open>Write\<close> call and drops what the sink answers.
\<close>

definition resetSuffix :: string where
  "resetSuffix = [ESC] @ ''_klio_reset'' @ [ESC, bslash, newline]"

definition sinkWrite :: "state \<Rightarrow> nat \<Rightarrow> string \<Rightarrow> (state \<times> nat \<times> error option) option" where
  "sinkWrite s w p =
     (if w < length (sinks s) then
        let sk = sinks s ! w
        in Some (s\<lparr>sinks := (sinks s)[w := sk\<lparr>received := received sk @ [p]\<rparr>]\<rparr>, reply sk p)
      else None)"

definition Print :: "state \<Rightarrow> nat \<Rightarrow> operand list \<Rightarrow> (state \<times> nat) option" where
  "Print s l v =
     (case deref s l of
        None \<Rightarrow> None
      | Some lg \<Rightarrow>
          let line = linePrefix lg @ Sprint v @ resetSuffix
          in (case sinkWrite s (output lg) line of
                None \<Rightarrow> None
              | Some (s', n, err) \<Rightarrow> Some (s', l)))"

section \<open>bufio.Scanner with the split function ScanLines\<close>

text \<open>
  \<^verbatim>\<open>ScanLines\<close> is the split function of the Go library: given the buffered data and
  whether the input has ended, it returns how far to advance and the token, if there is
  one (\<open>None\<close> asks for more data).
\<close>

definition MaxScanTokenSize :: nat where
  "MaxScanTokenSize = 64 * 1024"

fun IndexByte :: "string \<Rightarrow> char \<Rightarrow> nat option" where
  "IndexByte [] c = None"
| "IndexByte (x # xs) c = (if x = c then Some 0 else map_option Suc (IndexByte xs c))"

definition dropCR :: "string \<Rightarrow> string" where
  "dropCR data =
     (if 0 < length data \<and> data ! (length data - 1) = CR then take (length data - 1) data
      else data)"

definition ScanLines :: "string \<Rightarrow> bool \<Rightarrow> nat \<times> string option" where
  "ScanLines data atEOF =
     (if atEOF \<and> length data = 0 then (0, None)
      else
        (case IndexByte data newline of
           Some i \<Rightarrow> (i + 1, Some (dropCR (take i data)))
         | None \<Rightarrow> if atEOF then (length data, Some (dropCR data)) else (0, None)))"

text \<open>
  One call of \<^verbatim>\<open>Scanner.Scan\<close> on a scanner that reads from \<^verbatim>\<open>bytes.NewReader(p)\<close>, as a
  function of the input not consumed yet. The scanner shifts and grows its buffer, from
  4096 bytes by doubling, until the split function finds a token in it; the buffer never
  grows beyond \<open>MaxScanTokenSize\<close> bytes, and a full buffer of that size without a token is
  the error \<^verbatim>\<open>ErrTooLong\<close>. The reader hands over all it has, so what the split function
  sees in the end is the first \<open>MaxScanTokenSize\<close> bytes of the remaining input, and the
  scanner has met the end of the input exactly when this is less than a full buffer.
  \<open>Token t rest\<close> is a call that returns true with the token \<open>t\<close>, \<open>Stop e\<close> one that
  returns false, \<open>e\<close> being what \<^verbatim>\<open>Err()\<close> returns afterwards.
\<close>

datatype scan = Token string string | Stop "error option"

definition Scan :: "string \<Rightarrow> scan" where
  "Scan rest =
     (let atEOF = length rest < MaxScanTokenSize
      in (case ScanLines (take MaxScanTokenSize rest) atEOF of
            (advance, Some token) \<Rightarrow> Token token (drop advance rest)
          | (advance, None) \<Rightarrow> if atEOF then Stop None else Stop (Some ErrTooLong)))"

text \<open>
  The loop of \<^verbatim>\<open>Write\<close>: print every token while \<^verbatim>\<open>Scan\<close> returns true; its result is
  the store and the scanner's error. \<^verbatim>\<open>Write\<close> then returns \<^verbatim>\<open>(0, err)\<close> or
  \<^verbatim>\<open>(len(p), nil)\<close>.
\<close>

function scanLoop :: "state \<Rightarrow> nat \<Rightarrow> string \<Rightarrow> (state \<times> error option) option" where
  "scanLoop s l rest =
     (case Scan rest of
        Token token rest' \<Rightarrow>
          (case Print s l [Operand True token] of
             None \<Rightarrow> None
           | Some (s', r) \<Rightarrow> scanLoop s' l rest')
      | Stop err \<Rightarrow> Some (s, err))"
  by pat_completeness auto
termination
proof (relation "measure (\<lambda>(s, l, rest). length rest)", goal_cases)
  case 1
  show ?case by simp
next
  case (2 s l rest token rest')
  have ne: "rest \<noteq> []"
  proof
    assume "rest = []"
    then have "Scan rest = Stop None"
      by (simp add: Scan_def ScanLines_def MaxScanTokenSize_def)
    with 2(1) show False by simp
  qed
  from 2(1) ne obtain advance where "rest' = drop advance rest" "0 < advance"
    by (auto simp: Scan_def ScanLines_def Let_def split: prod.splits option.splits if_splits)
  with ne show ?case by simp
qed

definition Write :: "state \<Rightarrow> nat \<Rightarrow> string \<Rightarrow> (state \<times> nat \<times> error option) option" where
  "Write s l p =
     (case scanLoop s l p of
        None \<Rightarrow> None
      | Some (s', err) \<Rightarrow>
          (case err of
             Some e \<Rightarrow> Some (s', 0, Some e)
           | None \<Rightarrow> Some (s', length p, None)))"

text \<open>
  The lines of a buffer, as the specification words them: the buffer split at every
  newline byte, the delimiters left out, a last line without a newline included, and
  nothing for the empty remainder after a last newline.
\<close>

fun splitLines :: "string \<Rightarrow> string list" where
  "splitLines [] = []"
| "splitLines (c # cs) =
     (if c = newline then [] # splitLines cs
      else (case splitLines cs of [] \<Rightarrow> [[c]] | ln # lns \<Rightarrow> (c # ln) # lns))"

text \<open>
  A line is short when the scanner's buffer can hold it with its newline, that is when
  it has fewer than \<open>MaxScanTokenSize\<close> bytes. \<open>printAll s l ms\<close> calls \<^verbatim>\<open>Print\<close> on the
  logger \<open>l\<close> once for every message of \<open>ms\<close>, in order, each with the message as its
  only operand.
\<close>

definition shortLine :: "string \<Rightarrow> bool" where
  "shortLine ln = (length ln < MaxScanTokenSize)"

definition printAll :: "state \<Rightarrow> nat \<Rightarrow> string list \<Rightarrow> state option" where
  "printAll s l ms =
     fold (\<lambda>m so. case so of None \<Rightarrow> None | Some t \<Rightarrow> map_option fst (Print t l [Operand True m]))
       ms (Some s)"

text \<open>
  \<open>deliver s w rs\<close> is the store \<open>s\<close> after the sink \<open>w\<close> has received the byte sequences
  \<open>rs\<close>, one call each; \<open>logRecord lg m\<close> is the record of the message \<open>m\<close> for the logger
  struct \<open>lg\<close>.
\<close>

definition deliver :: "state \<Rightarrow> nat \<Rightarrow> string list \<Rightarrow> state" where
  "deliver s w rs =
     s\<lparr>sinks := (sinks s)[w := (sinks s ! w)\<lparr>received := received (sinks s ! w) @ rs\<rparr>]\<rparr>"

definition logRecord :: "Logger \<Rightarrow> string \<Rightarrow> string" where
  "logRecord lg m = linePrefix lg @ m @ resetSuffix"

section \<open>Reachable stores\<close>






section \<open>Example stores\<close>

text \<open>
  Two sinks, one that accepts every write and one that fails every write; the logger 0
  made by \<^verbatim>\<open>New\<close> on the first and the logger 1 made by \<^verbatim>\<open>New\<close> on the second; the
  logger 2, which is \<^verbatim>\<open>WithTags\<close> of the logger 0 with a slice of the three tags a, b,
  c; and the logger 3, which is \<^verbatim>\<open>WithLevel(SpamLevel)\<close> of the logger 2.
\<close>

definition okSink :: sink where
  "okSink = \<lparr>received = [], reply = (\<lambda>p. (length p, None))\<rparr>"

definition failingSink :: sink where
  "failingSink = \<lparr>received = [], reply = (\<lambda>p. (0, Some (OtherError ''write failed'')))\<rparr>"

definition store0 :: state where
  "store0 = \<lparr>loggers = [], arrays = [], sinks = [okSink, failingSink]\<rparr>"

definition store1 :: state where
  "store1 = fst (New store0 0)"

definition store2 :: state where
  "store2 = fst (New store1 1)"

definition store3 :: state where
  "store3 = fst (makeSlice store2 [''a'', ''b'', ''c''])"

definition store4 :: state where
  "store4 = fst (the (WithTags store3 0 (Slice 2 0 3)))"

definition store5 :: state where
  "store5 = fst (the (WithLevel store4 2 SpamLevel))"





definition infoPrefix :: string where
  "infoPrefix = [ESC] @ ''_klio_log_level '' @ [quote] @ ''info'' @ [quote] @ [ESC, bslash]
       @ [ESC] @ ''_klio_tags []'' @ [ESC, bslash]"

definition abcTags :: string where
  "abcTags = ''['' @ [quote] @ ''a'' @ [quote] @ '','' @ [quote] @ ''b'' @ [quote] @ '',''
       @ [quote] @ ''c'' @ [quote] @ '']''"

section \<open>Unfolding the model\<close>

lemmas json_defs = appendString_def byte_def RuneSelf_def htmlSafe_def escapeByte_def hex_def
  ESC_def bslash_def quote_def newline_def Marshal_string_def Marshal_strings_def levelField_def
  tagsField_def formatPrefix_def encodePrefix_def

lemmas store_defs = New_def WithLevel_def WithTags_def Tags_def Level_def Output_def SetOutput_def
  Print_def sinkWrite_def deref_def updateLinePrefix_def makeSlice_def variadic_def Let_def
  copySlice_def deliver_def tagsOf_def DefaultLevel_def InfoLevel_def resetSuffix_def Sprint_def

lemmas scan_defs = shortLine_def MaxScanTokenSize_def dropCR_def CR_def newline_def logRecord_def

lemmas level_defs = FatalLevel_def ErrorLevel_def WarnLevel_def InfoLevel_def VerboseLevel_def
  DebugLevel_def SpamLevel_def DefaultLevel_def

section \<open>The JSON encoding keeps the framing\<close>

lemma wellEscaped_append: "wellEscaped a \<Longrightarrow> wellEscaped b \<Longrightarrow> wellEscaped (a @ b)"
proof (induction a rule: wellEscaped.induct)
  case 1 then show ?case by simp
next
  case (2 c) then show ?case by (cases b) auto
next
  case (3 c d cs) then show ?case by (auto split: if_splits)
qed

lemma wellEscaped_plain: "\<forall>c\<in>set xs. c \<noteq> ESC \<and> c \<noteq> bslash \<Longrightarrow> wellEscaped xs"
  by (induction xs rule: wellEscaped.induct) auto

lemma hex_plain: "n < 16 \<Longrightarrow> hex n \<noteq> ESC \<and> hex n \<noteq> bslash"
proof -
  assume "n < 16"
  then have "hex n \<in> set ''0123456789abcdef''"
    unfolding hex_def by (intro nth_mem) simp
  then show ?thesis by (auto simp: ESC_def bslash_def)
qed

lemma and15: "(x::nat) AND 0xF < 16"
proof -
  have "(0xF::nat) = mask 4" by (simp add: mask_eq_exp_minus_1)
  then have "x AND 0xF = take_bit 4 x" by (simp add: take_bit_eq_mask)
  then show ?thesis by (simp add: take_bit_eq_mod)
qed

lemma db4: "x < 128 \<Longrightarrow> drop_bit 4 (x::nat) < 16"
  by (simp add: drop_bit_eq_div)

lemma htmlSafe_plain: "htmlSafe b \<Longrightarrow> b \<noteq> ESC \<and> b \<noteq> bslash"
  by (auto simp: htmlSafe_def ESC_def byte_def)

lemma high_plain: "0x80 \<le> byte b \<Longrightarrow> b \<noteq> ESC \<and> b \<noteq> bslash"
  by (auto simp: ESC_def bslash_def byte_def)

lemma escapeByte_ok: "byte b < 0x80 \<Longrightarrow> wellEscaped (escapeByte b) \<and> ESC \<notin> set (escapeByte b)"
  using hex_plain[OF and15, of "byte b"] hex_plain[OF db4, of "byte b"]
  by (auto simp: escapeByte_def escapeChars_def ESC_def bslash_def quote_def)

lemma decode_one:
  assumes "DecodeRuneInString s = (c, w)" "s \<noteq> []" "RuneSelf \<le> byte (s ! 0)" "w = 1"
  shows "c = RuneError"
  using assms
  by (auto simp: DecodeRuneInString_def Let_def split: if_splits)

lemma decode_width:
  assumes "DecodeRuneInString s = (c, w)" "s \<noteq> []" "RuneSelf \<le> byte (s ! 0)"
  shows "w \<le> length s \<and> w \<le> 4 \<and> (2 \<le> w \<longrightarrow> 0x80 \<le> byte (s ! 1))
     \<and> (3 \<le> w \<longrightarrow> 0x80 \<le> byte (s ! 2)) \<and> (4 \<le> w \<longrightarrow> 0x80 \<le> byte (s ! 3))"
  using assms
  by (auto simp: DecodeRuneInString_def Let_def RuneSelf_def firstSize_def acceptLo_def acceptHi_def Suc_le_eq split: if_splits)

lemma decode_high:
  assumes "DecodeRuneInString s = (c, w)" "s \<noteq> []" "RuneSelf \<le> byte (s ! 0)"
  shows "w \<le> length s \<and> (\<forall>i<w. 0x80 \<le> byte (s ! i))"
proof -
  note W = decode_width [OF assms]
  have "0x80 \<le> byte (s ! i)" if "i < w" for i
  proof -
    from that W have "i = 0 \<or> i = 1 \<or> i = 2 \<or> i = 3" by linarith
    then show ?thesis using that W assms(3) by (auto simp: RuneSelf_def)
  qed
  with W show ?thesis by blast
qed

lemma wellEscaped_no_ESC: "wellEscaped p \<Longrightarrow> ESC \<notin> set p"
  by (induction p rule: wellEscaped.induct)
     (auto simp: escapeChars_def ESC_def bslash_def quote_def split: if_splits)

lemma copied_rune_plain:
  assumes "DecodeRuneInString (take UTFMax (b # bs)) = (c, w)" "\<not> byte b < RuneSelf"
  shows "\<forall>x\<in>set (take w (b # bs)). x \<noteq> ESC \<and> x \<noteq> bslash"
proof
  fix x assume x: "x \<in> set (take w (b # bs))"
  let ?s = "take UTFMax (b # bs)"
  have ne: "?s \<noteq> []" and hd: "RuneSelf \<le> byte (?s ! 0)"
    using assms(2) by (simp_all add: UTFMax_def)
  from decode_high [OF assms(1) ne hd]
  have w: "w \<le> length ?s" and hi: "\<forall>i<w. 0x80 \<le> byte (?s ! i)" by blast+
  from w have wmax: "w \<le> UTFMax"
    by simp
  from x obtain i where i: "i < w" "x = (b # bs) ! i"
    by (auto simp: in_set_conv_nth)
  from i(1) wmax have "?s ! i = (b # bs) ! i"
    by (intro nth_take) simp
  with hi i have "0x80 \<le> byte x" by metis
  then show "x \<noteq> ESC \<and> x \<noteq> bslash" by (rule high_plain)
qed

lemma wellEscaped_u:
  assumes "\<forall>x\<in>{x1, x2, x3, x4}. x \<noteq> ESC \<and> x \<noteq> bslash"
  shows "wellEscaped [bslash, CHR ''u'', x1, x2, x3, x4]"
  using assms by (simp add: escapeChars_def ESC_def bslash_def)

lemma appendStringBody_wellEscaped: "wellEscaped (appendStringBody s)"
proof (induction s rule: appendStringBody.induct)
  case 1
  show ?case by simp
next
  case (2 b bs)
  show ?case
  proof (cases "byte b < RuneSelf")
    case True
    then have lt: "byte b < 0x80" by (simp add: RuneSelf_def)
    have "wellEscaped (if htmlSafe b then [b] else escapeByte b)"
      using htmlSafe_plain [of b] escapeByte_ok [OF lt] by auto
    moreover have "appendStringBody (b # bs) =
        (if htmlSafe b then [b] else escapeByte b) @ appendStringBody bs"
      using True by simp
    ultimately show ?thesis
      using "2.IH"(1) [OF True] by (simp only: wellEscaped_append)
  next
    case False
    obtain c w where d: "DecodeRuneInString (take UTFMax (b # bs)) = (c, w)"
      by (cases "DecodeRuneInString (take UTFMax (b # bs))")
    consider (bad) "c = RuneError \<and> w = 1"
      | (sep) "\<not> (c = RuneError \<and> w = 1)" "c = 0x2028 \<or> c = 0x2029"
      | (copy) "\<not> (c = RuneError \<and> w = 1)" "\<not> (c = 0x2028 \<or> c = 0x2029)"
      by blast
    then show ?thesis
    proof cases
      case bad
      have "appendStringBody (b # bs) =
          [bslash, CHR ''u'', CHR ''f'', CHR ''f'', CHR ''f'', CHR ''d'']
            @ appendStringBody (drop w (b # bs))"
        using False d bad by simp
      moreover have "wellEscaped [bslash, CHR ''u'', CHR ''f'', CHR ''f'', CHR ''f'', CHR ''d'']"
        by (rule wellEscaped_u) (simp add: ESC_def bslash_def)
      ultimately show ?thesis
        using "2.IH"(2) [OF False d [symmetric] bad] by (simp only: wellEscaped_append)
    next
      case sep
      have "appendStringBody (b # bs) =
          [bslash, CHR ''u'', CHR ''2'', CHR ''0'', CHR ''2'', hex (c AND 0xF)]
            @ appendStringBody (drop w (b # bs))"
        using False d sep by simp
      moreover have "wellEscaped [bslash, CHR ''u'', CHR ''2'', CHR ''0'', CHR ''2'', hex (c AND 0xF)]"
        by (rule wellEscaped_u) (use hex_plain [OF and15, of c] in \<open>simp add: ESC_def bslash_def\<close>)
      ultimately show ?thesis
        using "2.IH"(3) [OF False d [symmetric] sep] by (simp only: wellEscaped_append)
    next
      case copy
      have "appendStringBody (b # bs) = take w (b # bs) @ appendStringBody (drop w (b # bs))"
        using False d copy by simp
      moreover have "wellEscaped (take w (b # bs))"
        by (rule wellEscaped_plain [OF copied_rune_plain [OF d False]])
      ultimately show ?thesis
        using "2.IH"(4) [OF False d [symmetric] copy] by (simp only: wellEscaped_append)
    qed
  qed
qed

lemma appendString_wellEscaped: "wellEscaped (appendString s)"
proof -
  have "wellEscaped [quote]"
    by (simp add: quote_def ESC_def bslash_def)
  then have "wellEscaped ([quote] @ appendStringBody s @ [quote])"
    by (intro wellEscaped_append appendStringBody_wellEscaped)
  then show ?thesis
    by (simp add: appendString_def)
qed

lemma arrayElems_wellEscaped: "wellEscaped (arrayElems i xs)"
proof (induction xs arbitrary: i)
  case Nil
  show ?case by simp
next
  case (Cons x xs)
  have "wellEscaped (if 0 < i then '','' else [])"
    by (simp add: ESC_def bslash_def)
  then have "wellEscaped ((if 0 < i then '','' else []) @ appendString x @ arrayElems (i + 1) xs)"
    by (intro wellEscaped_append appendString_wellEscaped Cons.IH)
  then show ?case by simp
qed

lemma levelField_wellEscaped: "wellEscaped (levelField (Marshal_string lv))"
  by (simp add: levelField_def Marshal_string_def appendString_wellEscaped)

lemma tagsField_wellEscaped: "wellEscaped (tagsField (Marshal_strings tv))"
proof (cases tv)
  case None
  then show ?thesis
    by (simp add: tagsField_def Marshal_strings_def ESC_def bslash_def)
next
  case (Some xs)
  have "wellEscaped ''[''" and "wellEscaped '']''"
    by (simp_all add: ESC_def bslash_def)
  then have "wellEscaped (''['' @ arrayElems 0 xs @ '']'')"
    by (intro wellEscaped_append arrayElems_wellEscaped)
  moreover have "wellEscaped ''[]''"
    by (simp add: ESC_def bslash_def)
  ultimately show ?thesis
    using Some by (simp add: tagsField_def Marshal_strings_def del: wellEscaped.simps)
qed

section \<open>Slices, the store and the cached prefix\<close>

lemma validSlice_append: "validSlice as sl \<Longrightarrow> validSlice (as @ bs) sl"
  by (cases sl) (auto simp: nth_append)

lemma sliceElems_append: "validSlice as sl \<Longrightarrow> sliceElems (as @ bs) sl = sliceElems as sl"
  by (cases sl) (auto simp: nth_append)


lemma sliceElems_length: "validSlice as sl \<Longrightarrow> length (sliceElems as sl) = sliceLen sl"
  by (cases sl) auto

lemma copySlice_all: "length src = n \<Longrightarrow> copySlice (replicate n x) src = src"
  by (simp add: copySlice_def)

lemma levelField_eq: "levelField (Marshal_string lv) = appendString lv"
  by (simp add: levelField_def Marshal_string_def)

lemma tagsField_eq:
  "tagsField (Marshal_strings tv) = ''['' @ arrayElems 0 (case tv of None \<Rightarrow> [] | Some xs \<Rightarrow> xs) @ '']''"
  by (cases tv) (simp_all add: tagsField_def Marshal_strings_def)

lemma sliceValue_elems: "(case sliceValue as sl of None \<Rightarrow> [] | Some xs \<Rightarrow> xs) = sliceElems as sl"
  by (cases sl) simp_all

lemma encodePrefix_eq:
  "encodePrefix lv (sliceValue as sl) =
     [ESC] @ ''_klio_log_level '' @ appendString lv @ [ESC, bslash]
       @ [ESC] @ ''_klio_tags '' @ ''['' @ arrayElems 0 (sliceElems as sl) @ '']'' @ [ESC, bslash]"
  by (simp add: encodePrefix_def formatPrefix_def levelField_eq tagsField_eq sliceValue_elems)

lemma Sprint_string: "Sprint [Operand True m] = m"
  by (simp add: Sprint_def)

lemma Print_eq:
  assumes "deref s l = Some lg" "output lg < length (sinks s)"
  shows "Print s l v = Some (deliver s (output lg) [linePrefix lg @ Sprint v @ resetSuffix], l)"
  using assms by (simp add: Print_def sinkWrite_def deliver_def Let_def split: prod.splits)











lemma Tags_eq:
  assumes "deref s l = Some lg" "validSlice (arrays s) (tags lg)"
  shows "Tags s l = Some (s\<lparr>arrays := arrays s @ [sliceElems (arrays s) (tags lg)]\<rparr>,
           Slice (length (arrays s)) 0 (length (sliceElems (arrays s) (tags lg))))"
  using assms sliceElems_length [OF assms(2)]
  by (simp add: Tags_def Let_def copySlice_all)

lemma tagsOf_eq:
  assumes "deref s l = Some lg" "validSlice (arrays s) (tags lg)"
  shows "tagsOf s l = Some (sliceElems (arrays s) (tags lg))"
  by (simp add: tagsOf_def Tags_eq [OF assms])

section \<open>The example stores, computed\<close>

lemma store2_eq:
  "store2 = \<lparr>loggers =
       [\<lparr>output = 0, tags = Slice 0 0 0, level = ''info'', linePrefix = infoPrefix\<rparr>,
        \<lparr>output = 1, tags = Slice 1 0 0, level = ''info'', linePrefix = infoPrefix\<rparr>],
     arrays = [[], []], sinks = [okSink, failingSink]\<rparr>"
  by (simp add: store2_def store1_def store0_def store_defs json_defs infoPrefix_def)

lemma store5_eq:
  "store5 = \<lparr>loggers =
       [\<lparr>output = 0, tags = Slice 0 0 0, level = ''info'', linePrefix = infoPrefix\<rparr>,
        \<lparr>output = 1, tags = Slice 1 0 0, level = ''info'', linePrefix = infoPrefix\<rparr>,
        \<lparr>output = 0, tags = Slice 2 0 3, level = ''info'',
          linePrefix = [ESC] @ ''_klio_log_level '' @ [quote] @ ''info'' @ [quote] @ [ESC, bslash]
            @ [ESC] @ ''_klio_tags '' @ abcTags @ [ESC, bslash]\<rparr>,
        \<lparr>output = 0, tags = Slice 2 0 3, level = ''spam'',
          linePrefix = [ESC] @ ''_klio_log_level '' @ [quote] @ ''spam'' @ [quote] @ [ESC, bslash]
            @ [ESC] @ ''_klio_tags '' @ abcTags @ [ESC, bslash]\<rparr>],
     arrays = [[], [], [''a'', ''b'', ''c'']], sinks = [okSink, failingSink]\<rparr>"
  by (simp add: store5_def store4_def store3_def store2_eq store_defs json_defs abcTags_def SpamLevel_def)









section \<open>Scanning lines\<close>

lemma IndexByte_eq:
  "IndexByte xs c = (if c \<in> set xs then Some (length (takeWhile (\<lambda>x. x \<noteq> c) xs)) else None)"
  by (induction xs) auto

lemma takeWhile_take_short:
  "length (takeWhile P xs) < n \<Longrightarrow> takeWhile P (take n xs) = takeWhile P xs"
proof (induction xs arbitrary: n)
  case Nil
  show ?case by simp
next
  case (Cons x xs)
  then show ?case by (cases n) auto
qed

lemma mem_take_short:
  "c \<in> set xs \<Longrightarrow> length (takeWhile (\<lambda>x. x \<noteq> c) xs) < n \<Longrightarrow> c \<in> set (take n xs)"
proof (induction xs arbitrary: n)
  case Nil
  then show ?case by simp
next
  case (Cons x xs)
  then show ?case by (cases n) (auto split: if_splits)
qed

lemma notmem_take_long:
  "n \<le> length (takeWhile (\<lambda>x. x \<noteq> c) xs) \<Longrightarrow> c \<notin> set (take n xs)"
proof (induction xs arbitrary: n)
  case Nil
  show ?case by simp
next
  case (Cons x xs)
  then show ?case by (cases n) (auto split: if_splits)
qed

lemma splitLines_Nil_iff: "splitLines p = [] \<longleftrightarrow> p = []"
  by (cases p) (auto split: list.splits)

lemma splitLines_no_newline: "p \<noteq> [] \<Longrightarrow> newline \<notin> set p \<Longrightarrow> splitLines p = [p]"
proof (induction p)
  case Nil
  then show ?case by simp
next
  case (Cons c cs)
  then show ?case by (cases cs) (auto split: list.splits)
qed

lemma splitLines_newline:
  "newline \<in> set p \<Longrightarrow>
     splitLines p = takeWhile (\<lambda>x. x \<noteq> newline) p
       # splitLines (drop (Suc (length (takeWhile (\<lambda>x. x \<noteq> newline) p))) p)"
proof (induction p)
  case Nil
  then show ?case by simp
next
  case (Cons c cs)
  show ?case
  proof (cases "c = newline")
    case True
    then show ?thesis by simp
  next
    case False
    with Cons.prems have "newline \<in> set cs" by simp
    from Cons.IH [OF this] False show ?thesis by simp
  qed
qed

lemma splitLines_snoc_newline:
  "splitLines (q @ [newline]) =
     (if q = [] \<or> last q = newline then splitLines q @ [[]] else splitLines q)"
proof (induction q)
  case Nil
  show ?case by simp
next
  case (Cons c cs)
  then show ?case
    by (cases cs) (auto split: list.splits simp: splitLines_Nil_iff)
qed

lemma length_splitLines:
  "length (splitLines p) =
     length (filter (\<lambda>c. c = newline) p) + (if p \<noteq> [] \<and> last p \<noteq> newline then 1 else 0)"
proof (induction p)
  case Nil
  show ?case by simp
next
  case (Cons c cs)
  show ?case
  proof (cases "cs = []")
    case True
    then show ?thesis by simp
  next
    case False
    then obtain ln lns where sp: "splitLines cs = ln # lns"
      by (cases "splitLines cs") (simp_all add: splitLines_Nil_iff)
    with Cons.IH False show ?thesis
      by simp
  qed
qed

lemma Scan_empty: "Scan [] = Stop None"
  by (simp add: Scan_def ScanLines_def MaxScanTokenSize_def)

lemma Scan_line:
  assumes "newline \<in> set rest" "length (takeWhile (\<lambda>x. x \<noteq> newline) rest) < MaxScanTokenSize"
  shows "Scan rest = Token (dropCR (takeWhile (\<lambda>x. x \<noteq> newline) rest))
           (drop (Suc (length (takeWhile (\<lambda>x. x \<noteq> newline) rest))) rest)"
proof -
  let ?ln = "takeWhile (\<lambda>x. x \<noteq> newline) rest"
  let ?data = "take MaxScanTokenSize rest"
  have "newline \<in> set ?data"
    by (rule mem_take_short [OF assms])
  moreover have "takeWhile (\<lambda>x. x \<noteq> newline) ?data = ?ln"
    by (rule takeWhile_take_short [OF assms(2)])
  ultimately have i: "IndexByte ?data newline = Some (length ?ln)"
    by (simp add: IndexByte_eq)
  have "take (length ?ln) ?data = take (length ?ln) rest"
    using assms(2) by (simp add: min_absorb1)
  also have "\<dots> = ?ln"
    by (simp add: takeWhile_eq_take [symmetric])
  finally have t: "take (length ?ln) ?data = ?ln" .
  have "?data \<noteq> []"
    using \<open>newline \<in> set ?data\<close> by (auto simp: MaxScanTokenSize_def)
  then have "length ?data \<noteq> 0"
    unfolding length_0_conv .
  moreover have "0 < MaxScanTokenSize"
    by (simp add: MaxScanTokenSize_def)
  ultimately show ?thesis
    unfolding Scan_def ScanLines_def Let_def i using t by simp
qed

lemma Scan_last_line:
  assumes "rest \<noteq> []" "newline \<notin> set rest" "length rest < MaxScanTokenSize"
  shows "Scan rest = Token (dropCR rest) []"
proof -
  have "take MaxScanTokenSize rest = rest"
    using assms(3) by simp
  moreover have "IndexByte rest newline = None"
    using assms(2) by (simp add: IndexByte_eq)
  ultimately show ?thesis
    using assms(1,3) by (simp add: Scan_def ScanLines_def)
qed

lemma Scan_too_long:
  assumes "MaxScanTokenSize \<le> length (takeWhile (\<lambda>x. x \<noteq> newline) rest)"
  shows "Scan rest = Stop (Some ErrTooLong)"
proof -
  have "length (takeWhile (\<lambda>x. x \<noteq> newline) rest) \<le> length rest"
    by (rule length_takeWhile_le)
  with assms have len: "\<not> length rest < MaxScanTokenSize"
    by simp
  have "IndexByte (take MaxScanTokenSize rest) newline = None"
    using notmem_take_long [OF assms] by (simp add: IndexByte_eq)
  with len show ?thesis
    by (simp add: Scan_def ScanLines_def)
qed

lemma deliver_deliver:
  "w < length (sinks s) \<Longrightarrow> deliver (deliver s w a) w b = deliver s w (a @ b)"
  by (simp add: deliver_def)

lemma deliver_Nil: "w < length (sinks s) \<Longrightarrow> deliver s w [] = s"
  by (simp add: deliver_def)

lemma deliver_fields:
  "loggers (deliver s w a) = loggers s" "arrays (deliver s w a) = arrays s"
  "length (sinks (deliver s w a)) = length (sinks s)"
  by (simp_all add: deliver_def)

lemma deref_deliver: "deref (deliver s w a) l = deref s l"
  by (simp add: deref_def deliver_def)

lemma Print_line:
  assumes "deref s l = Some lg" "output lg < length (sinks s)"
  shows "Print s l [Operand True m] = Some (deliver s (output lg) [logRecord lg m], l)"
  using Print_eq [OF assms, of "[Operand True m]"] by (simp add: Sprint_string logRecord_def)

lemma scanLoop_eq:
  assumes "deref s l = Some lg" "output lg < length (sinks s)"
  shows "scanLoop s l rest =
      Some (deliver s (output lg)
              (map (\<lambda>ln. logRecord lg (dropCR ln)) (takeWhile shortLine (splitLines rest))),
            if list_all shortLine (splitLines rest) then None else Some ErrTooLong)"
  using assms
proof (induction rest arbitrary: s rule: length_induct)
  case (1 rest)
  let ?w = "output lg"
  let ?ln = "takeWhile (\<lambda>x. x \<noteq> newline) rest"
  note d = "1.prems"(1) and o = "1.prems"(2)
  consider (empty) "rest = []"
    | (long) "rest \<noteq> []" "\<not> shortLine ?ln"
    | (last) "rest \<noteq> []" "shortLine ?ln" "newline \<notin> set rest"
    | (line) "rest \<noteq> []" "shortLine ?ln" "newline \<in> set rest"
    by blast
  then show ?case
  proof cases
    case empty
    then show ?thesis
      using o by (simp add: scanLoop.simps [of s l "[]"] Scan_empty deliver_Nil)
  next
    case long
    then have "Scan rest = Stop (Some ErrTooLong)"
      by (intro Scan_too_long) (simp add: shortLine_def)
    moreover have "\<exists>lns. splitLines rest = ?ln # lns"
    proof (cases "newline \<in> set rest")
      case True
      then show ?thesis using splitLines_newline by blast
    next
      case False
      with long(1) have "splitLines rest = [rest]" by (rule splitLines_no_newline)
      moreover from False have "?ln = rest" by (subst takeWhile_eq_all_conv) auto
      ultimately show ?thesis by metis
    qed
    ultimately show ?thesis
      using long(2) o by (auto simp: scanLoop.simps [of s l rest] deliver_Nil)
  next
    case last
    then have all: "?ln = rest"
      by (subst takeWhile_eq_all_conv) auto
    with last have sc: "Scan rest = Token (dropCR rest) []"
      by (intro Scan_last_line) (simp_all add: shortLine_def)
    have sp: "splitLines rest = [rest]"
      using last(1,3) by (rule splitLines_no_newline)
    let ?s1 = "deliver s ?w [logRecord lg (dropCR rest)]"
    have "scanLoop ?s1 l [] = Some (?s1, None)"
      by (simp add: scanLoop.simps [of ?s1 l "[]"] Scan_empty)
    then show ?thesis
      using sc sp last(2) all Print_line [OF d o]
      by (simp add: scanLoop.simps [of s l rest])
  next
    case line
    let ?rest' = "drop (Suc (length ?ln)) rest"
    from line have sc: "Scan rest = Token (dropCR ?ln) ?rest'"
      by (intro Scan_line) (simp_all add: shortLine_def)
    have sp: "splitLines rest = ?ln # splitLines ?rest'"
      using line(3) by (rule splitLines_newline)
    let ?s1 = "deliver s ?w [logRecord lg (dropCR ?ln)]"
    have shorter: "length ?rest' < length rest"
      using line(1) by simp
    have d1: "deref ?s1 l = Some lg" and o1: "output lg < length (sinks ?s1)"
      using d o by (simp_all add: deref_deliver deliver_fields)
    from "1.IH" shorter d1 o1
    have "scanLoop ?s1 l ?rest' =
        Some (deliver ?s1 ?w
                (map (\<lambda>ln. logRecord lg (dropCR ln)) (takeWhile shortLine (splitLines ?rest'))),
              if list_all shortLine (splitLines ?rest') then None else Some ErrTooLong)"
      by blast
    then show ?thesis
      using sc line(2) Print_line [OF d o] o
      by (simp add: scanLoop.simps [of s l rest] sp deliver_deliver)
  qed
qed

lemma printAll_eq:
  assumes "deref s l = Some lg" "output lg < length (sinks s)"
  shows "printAll s l ms = Some (deliver s (output lg) (map (logRecord lg) ms))"
  using assms
proof (induction ms arbitrary: s)
  case Nil
  then show ?case by (simp add: printAll_def deliver_Nil)
next
  case (Cons m ms)
  let ?s1 = "deliver s (output lg) [logRecord lg m]"
  have d1: "deref ?s1 l = Some lg" and o1: "output lg < length (sinks ?s1)"
    using Cons.prems by (simp_all add: deref_deliver deliver_fields)
  have "printAll s l (m # ms) = printAll ?s1 l ms"
    using Print_line [OF Cons.prems] by (simp add: printAll_def)
  with Cons.IH [OF d1 o1] Cons.prems(2) show ?case
    by (simp add: deliver_deliver)
qed

lemma takeWhile_all: "list_all P xs \<Longrightarrow> takeWhile P xs = xs"
  by (simp add: list_all_iff takeWhile_eq_all_conv)

lemma Write_empty: "Write s l [] = Some (s, 0, None)"
  by (simp add: Write_def scanLoop.simps [of s l "[]"] Scan_empty)

section \<open>Level names\<close>

lemma levelsMap_name: "name \<in> set levelNames \<Longrightarrow> levelsMap name = Some name"
  by (auto simp: levelNames_def levelsMap_def level_defs)

lemma levelsMap_Some: "levelsMap x = Some y \<Longrightarrow> y = x \<and> x \<in> set levelNames"
  by (auto simp: levelNames_def levelsMap_def level_defs split: if_splits)

lemma levelNames_lower: "name \<in> set levelNames \<Longrightarrow> list_all isLower name"
  by (auto simp: levelNames_def isLower_def byte_def)

lemma lowerByte_id: "\<not> isUpper c \<Longrightarrow> lowerByte c = c"
  by (simp add: lowerByte_def)

lemma ToLower_ascii: "isASCII s \<Longrightarrow> ToLower U s = map lowerByte s"
proof -
  have "map lowerByte s = s" if "\<not> list_ex isUpper s"
    using that by (induction s) (simp_all add: lowerByte_id)
  then show "isASCII s \<Longrightarrow> ToLower U s = map lowerByte s"
    by (auto simp: ToLower_def)
qed

lemma byte_char_of: "n < 256 \<Longrightarrow> byte (char_of n) = n"
  by (simp add: byte_def)

lemma variant_byte:
  assumes "c = d \<or> (isLower d \<and> byte c + 32 = byte d)" "isLower d"
  shows "byte c < RuneSelf \<and> lowerByte c = d \<and> (isLower c \<or> isUpper c)"
proof -
  from assms(2) have d: "97 \<le> byte d" "byte d \<le> 122"
    by (simp_all add: isLower_def byte_def)
  from assms(1) show ?thesis
  proof
    assume "c = d"
    with d assms(2) show ?thesis
      by (simp add: RuneSelf_def lowerByte_def isUpper_def byte_def)
  next
    assume "isLower d \<and> byte c + 32 = byte d"
    then have e: "byte c + 32 = byte d" ..
    with d have up: "isUpper c"
      by (simp add: isUpper_def byte_def)
    have "char_of (byte c + 32) = d"
      unfolding e by (simp add: byte_def)
    with up e d show ?thesis
      by (simp add: RuneSelf_def lowerByte_def byte_def)
  qed
qed

lemma caseVariant_lower:
  assumes "caseVariant s name" "list_all isLower name"
  shows "isASCII s \<and> map lowerByte s = name \<and> list_all (\<lambda>c. isLower c \<or> isUpper c) s"
  using assms unfolding caseVariant_def isASCII_def
proof (induction s name rule: list_all2_induct)
  case Nil
  show ?case by simp
next
  case (Cons c s d name)
  from variant_byte [OF Cons.hyps(1)] Cons.prems Cons.IH show ?case
    by simp
qed

lemma lower_variant_byte:
  assumes "byte c < RuneSelf" "isLower (lowerByte c)"
  shows "c = lowerByte c \<or> (isLower (lowerByte c) \<and> byte c + 32 = byte (lowerByte c))"
proof (cases "isUpper c")
  case True
  then have "byte c + 32 < 256"
    by (simp add: isUpper_def byte_def)
  then have "byte (char_of (byte c + 32)) = byte c + 32"
    by (rule byte_char_of)
  with True assms(2) show ?thesis
    by (simp add: lowerByte_def byte_def)
next
  case False
  then show ?thesis by (simp add: lowerByte_def)
qed

lemma lower_caseVariant:
  assumes "isASCII s" "list_all isLower (map lowerByte s)"
  shows "caseVariant s (map lowerByte s)"
  using assms unfolding caseVariant_def isASCII_def
proof (induction s)
  case Nil
  show ?case by simp
next
  case (Cons c s)
  then show ?case
    using lower_variant_byte [of c] by simp
qed

lemma ParseLevel_variant:
  assumes "name \<in> set levelNames" "caseVariant s name"
  shows "ParseLevel U s = (name, True)"
proof -
  from caseVariant_lower [OF assms(2) levelNames_lower [OF assms(1)]]
  have "ToLower U s = name"
    by (simp add: ToLower_ascii)
  with levelsMap_name [OF assms(1)] show ?thesis
    by (simp add: ParseLevel_def)
qed

lemma ParseLevel_ascii_other:
  assumes "isASCII s" "\<forall>name\<in>set levelNames. \<not> caseVariant s name"
  shows "ParseLevel U s = (DefaultLevel, False)"
proof (cases "levelsMap (ToLower U s)")
  case None
  then show ?thesis by (simp add: ParseLevel_def)
next
  case (Some lv)
  from levelsMap_Some [OF Some] have n: "ToLower U s \<in> set levelNames" ..
  then have "list_all isLower (map lowerByte s)"
    using levelNames_lower assms(1) by (simp add: ToLower_ascii)
  from lower_caseVariant [OF assms(1) this] n assms
  show ?thesis by (simp add: ToLower_ascii)
qed

lemma isSpace_plain: "isSpace c \<Longrightarrow> byte c < RuneSelf \<and> \<not> isLower c \<and> \<not> isUpper c"
  by (auto simp: isSpace_def RuneSelf_def isLower_def isUpper_def byte_def)

lemma ParseLevel_padded:
  assumes "name \<in> set levelNames" "caseVariant v name" "ws \<noteq> []" "list_all isSpace ws"
  shows "ParseLevel U (ws @ v) = (DefaultLevel, False) \<and> ParseLevel U (v @ ws) = (DefaultLevel, False)"
proof -
  from caseVariant_lower [OF assms(2) levelNames_lower [OF assms(1)]]
  have av: "isASCII v" by simp
  from assms(4) have aw: "isASCII ws"
    using isSpace_plain by (auto simp: isASCII_def list_all_iff)
  from assms(3,4) obtain w where w: "w \<in> set ws" "isSpace w"
    by (cases ws) auto
  have no: "\<not> caseVariant s n" if "w \<in> set s" "n \<in> set levelNames" for s n
  proof
    assume "caseVariant s n"
    from caseVariant_lower [OF this levelNames_lower [OF that(2)]] that(1)
    have "isLower w \<or> isUpper w"
      by (auto simp: list_all_iff)
    with isSpace_plain [OF w(2)] show False by simp
  qed
  have "isASCII (ws @ v)" and "isASCII (v @ ws)"
    using av aw by (simp_all add: isASCII_def)
  moreover have "\<forall>n\<in>set levelNames. \<not> caseVariant (ws @ v) n"
    and "\<forall>n\<in>set levelNames. \<not> caseVariant (v @ ws) n"
    using no [of "ws @ v"] no [of "v @ ws"] w(1) by simp_all
  ultimately show ?thesis
    by (simp add: ParseLevel_ascii_other)
qed

lemma nat_or_ge: "(a::nat) \<le> a OR b"
proof -
  have "int a \<le> int a OR int b"
    by (rule or_greater_eq) simp
  then show ?thesis
    by (simp flip: of_nat_or_eq)
qed

lemma nat_or_ge2: "(b::nat) \<le> a OR b"
  using nat_or_ge [of b a] by (simp add: or.commute)

lemma byte_or_high:
  assumes "c < 256"
  shows "c \<le> byte (char_of (c OR x :: nat))"
proof -
  have "byte (char_of (c OR x)) = take_bit 8 (c OR x)"
    by (simp add: byte_def take_bit_eq_mod)
  also have "\<dots> = take_bit 8 c OR take_bit 8 x"
    by (simp add: take_bit_or)
  also have "take_bit 8 c = c"
    using assms by (simp add: take_bit_eq_mod)
  finally show ?thesis
    by (simp add: nat_or_ge)
qed

lemma AppendRune_high:
  assumes "0x80 \<le> r"
  shows "\<exists>e es. AppendRune r = e # es \<and> 0x80 \<le> byte e"
proof -
  have a: "0x80 \<le> byte (char_of (0xC0 OR x :: nat))" for x
    using byte_or_high [of "0xC0" x] by simp
  have b: "0x80 \<le> byte (char_of (0xE0 OR x :: nat))" for x
    using byte_or_high [of "0xE0" x] by simp
  have c: "0x80 \<le> byte (char_of (0xF0 OR x :: nat))" for x
    using byte_or_high [of "0xF0" x] by simp
  show ?thesis
    using assms a b c by (simp add: AppendRune_def appendRune3_def)
qed

lemma AppendRune_ascii: "r < 0x80 \<Longrightarrow> AppendRune r = [char_of r]"
  by (simp add: AppendRune_def)

lemma and_low_bits:
  "(x::nat) AND 0x1F = x mod 32" "(x::nat) AND 0x0F = x mod 16"
  "(x::nat) AND 0x07 = x mod 8" "(x::nat) AND 0x3F = x mod 64"
proof -
  have m: "(0x1F::nat) = mask 5" "(0x0F::nat) = mask 4" "(0x07::nat) = mask 3" "(0x3F::nat) = mask 6"
    by (simp_all add: mask_eq_exp_minus_1)
  show "x AND 0x1F = x mod 32" "x AND 0x0F = x mod 16" "x AND 0x07 = x mod 8" "x AND 0x3F = x mod 64"
    unfolding m by (simp_all add: take_bit_eq_mask [symmetric] take_bit_eq_mod)
qed

lemma mod_window:
  assumes "(a::nat) \<le> s" "s < a + m" "a mod m = 0"
  shows "s mod m = s - a"
proof -
  define k where "k = s - a"
  have s: "s = a + k"
    unfolding k_def using assms(1) by arith
  have k: "k < m"
    unfolding k_def using assms(1,2) by arith
  have "(a + k) mod m = (a mod m + k) mod m"
    by (simp add: mod_add_left_eq)
  also have "\<dots> = k"
    using assms(3) k by simp
  finally show ?thesis
    unfolding k_def using assms(1) by (simp only: le_add_diff_inverse)
qed

lemma rune2_high: "0xC2 \<le> s0 \<Longrightarrow> s0 < 0xE0 \<Longrightarrow> 0x80 \<le> rune2 s0 s1"
proof -
  assume a: "0xC2 \<le> s0" "s0 < 0xE0"
  then have "2 \<le> s0 mod 32"
    using mod_window [of 192 s0 32] by simp
  then have "0x80 \<le> push_bit 6 (s0 AND 0x1F)"
    by (simp add: and_low_bits push_bit_nat_def)
  also have "\<dots> \<le> rune2 s0 s1"
    unfolding rune2_def by (rule nat_or_ge)
  finally show ?thesis .
qed

lemma rune3_high:
  assumes "0xE0 \<le> s0" "s0 < 0xF0" "acceptLo s0 \<le> s1" "s1 \<le> 0xBF"
  shows "0x80 \<le> rune3 s0 s1 s2"
proof (cases "s0 = 0xE0")
  case True
  with assms have "0xA0 \<le> s1" "s1 \<le> 0xBF"
    by (simp_all add: acceptLo_def)
  then have "32 \<le> s1 mod 64"
    using mod_window [of 128 s1 64] by simp
  then have "0x80 \<le> push_bit 6 (s1 AND 0x3F)"
    by (simp add: and_low_bits push_bit_nat_def)
  also have "\<dots> \<le> push_bit 6 (s1 AND 0x3F) OR (s2 AND 0x3F)"
    by (rule nat_or_ge)
  also have "\<dots> \<le> rune3 s0 s1 s2"
    unfolding rune3_def by (rule nat_or_ge2)
  finally show ?thesis .
next
  case False
  with assms have "1 \<le> s0 mod 16"
    using mod_window [of 224 s0 16] by simp
  then have "0x80 \<le> push_bit 12 (s0 AND 0x0F)"
    by (simp add: and_low_bits push_bit_nat_def)
  also have "\<dots> \<le> rune3 s0 s1 s2"
    unfolding rune3_def by (rule nat_or_ge)
  finally show ?thesis .
qed

lemma rune4_high:
  assumes "0xF0 \<le> s0" "s0 < 0xF5" "acceptLo s0 \<le> s1" "s1 \<le> 0xBF"
  shows "0x80 \<le> rune4 s0 s1 s2 s3"
proof (cases "s0 = 0xF0")
  case True
  with assms have "0x90 \<le> s1" "s1 \<le> 0xBF"
    by (simp_all add: acceptLo_def)
  then have "16 \<le> s1 mod 64"
    using mod_window [of 128 s1 64] by simp
  then have "0x80 \<le> push_bit 12 (s1 AND 0x3F)"
    by (simp add: and_low_bits push_bit_nat_def)
  also have "\<dots> \<le> push_bit 12 (s1 AND 0x3F) OR push_bit 6 (s2 AND 0x3F) OR (s3 AND 0x3F)"
    by (rule nat_or_ge)
  also have "\<dots> \<le> rune4 s0 s1 s2 s3"
    unfolding rune4_def by (rule nat_or_ge2)
  finally show ?thesis .
next
  case False
  with assms have "1 \<le> s0 mod 8"
    using mod_window [of 240 s0 8] by simp
  then have "0x80 \<le> push_bit 18 (s0 AND 0x07)"
    by (simp add: and_low_bits push_bit_nat_def)
  also have "\<dots> \<le> rune4 s0 s1 s2 s3"
    unfolding rune4_def by (rule nat_or_ge)
  finally show ?thesis .
qed

lemma decode_ascii: "byte b < 0x80 \<Longrightarrow> DecodeRuneInString (b # bs) = (byte b, 1)"
  by (simp add: DecodeRuneInString_def RuneSelf_def)

lemma decode_nonascii:
  assumes "0x80 \<le> byte b" "DecodeRuneInString (b # bs) = (c, w)"
  shows "0x80 \<le> c \<and> 0 < w"
proof -
  let ?s0 = "byte b"
  have hi: "\<not> ?s0 < RuneSelf"
    using assms(1) by (simp add: RuneSelf_def)
  have e: "0x80 \<le> RuneError"
    by (simp add: RuneError_def)
  show ?thesis
  proof (cases "firstSize ?s0 = 0")
    case True
    with assms hi e show ?thesis
      by (simp add: DecodeRuneInString_def)
  next
    case False
    then have rng: "0xC2 \<le> ?s0" "?s0 < 0xF5"
      using assms(1) by (auto simp: firstSize_def split: if_splits)
    consider (two) "?s0 < 0xE0" | (three) "0xE0 \<le> ?s0" "?s0 < 0xF0" | (four) "0xF0 \<le> ?s0"
      by linarith
    then show ?thesis
    proof cases
      case two
      with rng have sz: "firstSize ?s0 = 2"
        by (simp add: firstSize_def)
      have hi2: "acceptHi ?s0 = 0xBF"
        using two by (simp add: acceptHi_def)
      from assms(2) hi sz e rune2_high [OF rng(1) two] show ?thesis
        by (auto simp: DecodeRuneInString_def Let_def split: if_splits)
    next
      case three
      then have sz: "firstSize ?s0 = 3"
        by (simp add: firstSize_def)
      have ub: "acceptHi ?s0 \<le> 0xBF"
        by (simp add: acceptHi_def)
      from assms(2) hi sz e ub rune3_high [OF three] show ?thesis
        by (auto simp: DecodeRuneInString_def Let_def split: if_splits)
    next
      case four
      with rng have sz: "firstSize ?s0 = 4"
        by (simp add: firstSize_def)
      have ub: "acceptHi ?s0 \<le> 0xBF"
        by (simp add: acceptHi_def)
      from assms(2) hi sz e ub rune4_high [OF four rng(2)] show ?thesis
        by (auto simp: DecodeRuneInString_def Let_def split: if_splits)
    qed
  qed
qed

lemma unicode_ToLower_nonneg: "\<forall>r. 0x80 \<le> caseTable r \<Longrightarrow> 0 \<le> unicode_ToLower caseTable c"
proof -
  assume "\<forall>r. 0x80 \<le> caseTable r"
  then have "0 \<le> caseTable c"
    by (metis order_trans zero_le_numeral)
  then show ?thesis
    by (simp add: unicode_ToLower_def To_LowerCase_def)
qed

lemma byte_eq_iff: "byte d = byte e \<longleftrightarrow> d = e"
  by (simp add: byte_def)

lemma lowers_iff:
  assumes "\<forall>r. 0x80 \<le> caseTable r" "isLower d"
  shows "unicode_ToLower caseTable c = int (byte d) \<longleftrightarrow> lowersTo c d"
proof -
  from assms(2) have d: "97 \<le> byte d" "byte d \<le> 122"
    by (simp_all add: isLower_def byte_def)
  have i: "byte (CHR ''i'') = 0x69" and k: "byte (CHR ''k'') = 0x6B"
    by (simp_all add: byte_def)
  show ?thesis
  proof (cases "c \<le> MaxASCII")
    case True
    then have "c \<noteq> 0x130" "c \<noteq> 0x212A"
      by (simp_all add: MaxASCII_def)
    with True d show ?thesis
      by (auto simp: unicode_ToLower_def lowersTo_def byte_def)
  next
    case False
    then have c: "0x80 \<le> c"
      by (simp add: MaxASCII_def)
    with d have no: "c \<noteq> byte d" "c + 32 \<noteq> byte d"
      by simp_all
    from assms(1) have "0x80 \<le> caseTable c" ..
    with d have t: "caseTable c \<noteq> int (byte d)"
      by simp
    have "byte d = 0x69 \<longleftrightarrow> d = CHR ''i''" "byte d = 0x6B \<longleftrightarrow> d = CHR ''k''"
      using byte_eq_iff [of d "CHR ''i''"] byte_eq_iff [of d "CHR ''k''"] i k by simp_all
    with False no t show ?thesis
      by (auto simp: unicode_ToLower_def To_LowerCase_def lowersTo_def)
  qed
qed

lemma image_step:
  assumes "0 \<le> r" "list_all isLower name"
  shows "(if r < int RuneSelf then [char_of (nat r)] else AppendRune (nat r)) @ rest = name
     \<longleftrightarrow> (\<exists>d ds. name = d # ds \<and> r = int (byte d) \<and> rest = ds)"
proof (cases "r < int RuneSelf")
  case True
  with assms(1) have n: "nat r < 256" "nat r < 0x80"
    by (simp_all add: RuneSelf_def)
  then have b: "byte (char_of (nat r)) = nat r"
    by (simp add: byte_def)
  show ?thesis
  proof
    assume "(if r < int RuneSelf then [char_of (nat r)] else AppendRune (nat r)) @ rest = name"
    with True have "name = char_of (nat r) # rest"
      by simp
    with b assms(1) show "\<exists>d ds. name = d # ds \<and> r = int (byte d) \<and> rest = ds"
      by simp
  next
    assume "\<exists>d ds. name = d # ds \<and> r = int (byte d) \<and> rest = ds"
    then obtain d where "name = d # rest" "r = int (byte d)"
      by blast
    with True show "(if r < int RuneSelf then [char_of (nat r)] else AppendRune (nat r)) @ rest = name"
      by (simp add: byte_def)
  qed
next
  case False
  then have "0x80 \<le> nat r"
    by (simp add: RuneSelf_def)
  from AppendRune_high [OF this] obtain e es where e: "AppendRune (nat r) = e # es" "0x80 \<le> byte e"
    by blast
  have ne: "\<not> isLower e"
    using e(2) by (simp add: isLower_def byte_def)
  have nr: "r \<noteq> int (byte d)" if "isLower d" for d
    using that False by (auto simp: isLower_def RuneSelf_def byte_def)
  have "AppendRune (nat r) @ rest \<noteq> name"
  proof
    assume "AppendRune (nat r) @ rest = name"
    with e(1) have "name = e # es @ rest"
      by simp
    with assms(2) ne show False
      by simp
  qed
  moreover have "\<not> (\<exists>d ds. name = d # ds \<and> r = int (byte d) \<and> rest = ds)"
  proof
    assume "\<exists>d ds. name = d # ds \<and> r = int (byte d) \<and> rest = ds"
    then obtain d ds where "name = d # ds" "r = int (byte d)"
      by blast
    with assms(2) nr [of d] show False
      by simp
  qed
  ultimately show ?thesis
    using False by simp
qed

lemma mapRest_lowers:
  assumes "\<forall>r. 0x80 \<le> caseTable r" "list_all isLower name"
  shows "mapRest (unicode_ToLower caseTable) s = name \<longleftrightarrow> list_all2 lowersTo (runes s) name"
  using assms(2)
proof (induction s arbitrary: name rule: length_induct)
  case (1 s)
  show ?case
  proof (cases s)
    case Nil
    then show ?thesis by auto
  next
    case (Cons b bs)
    obtain c w where d: "DecodeRuneInString (b # bs) = (c, w)"
      by (cases "DecodeRuneInString (b # bs)")
    then have "0 < w"
      by (auto simp: DecodeRuneInString_def Let_def split: if_splits)
    then have shorter: "length (drop w (b # bs)) < length s"
      using Cons by simp
    let ?r = "unicode_ToLower caseTable c"
    let ?rest = "mapRest (unicode_ToLower caseTable) (drop w (b # bs))"
    have nn: "0 \<le> ?r"
      by (rule unicode_ToLower_nonneg [OF assms(1)])
    have out: "mapRest (unicode_ToLower caseTable) s =
        (if ?r < int RuneSelf then [char_of (nat ?r)] else AppendRune (nat ?r)) @ ?rest"
      using Cons d nn by simp
    have rs: "runes s = c # runes (drop w (b # bs))"
      using Cons d by simp
    have "mapRest (unicode_ToLower caseTable) s = name
        \<longleftrightarrow> (\<exists>d ds. name = d # ds \<and> ?r = int (byte d) \<and> ?rest = ds)"
      unfolding out by (rule image_step [OF nn "1.prems"])
    also have "\<dots> \<longleftrightarrow> (\<exists>d ds. name = d # ds \<and> lowersTo c d \<and> list_all2 lowersTo (runes (drop w (b # bs))) ds)"
    proof (intro ex_cong1 conj_cong refl)
      fix d ds assume n: "name = d # ds"
      with "1.prems" have l: "isLower d" "list_all isLower ds"
        by simp_all
      show "?r = int (byte d) \<longleftrightarrow> lowersTo c d"
        by (rule lowers_iff [OF assms(1) l(1)])
      show "?rest = ds \<longleftrightarrow> list_all2 lowersTo (runes (drop w (b # bs))) ds"
        using "1.IH" shorter l(2) by blast
    qed
    also have "\<dots> \<longleftrightarrow> list_all2 lowersTo (runes s) name"
      unfolding rs by (auto simp: list_all2_Cons1)
    finally show ?thesis .
  qed
qed

lemma take_width:
  assumes "DecodeRuneInString (b # bs) = (c, w)"
  shows "\<exists>rest. take w (b # bs) = b # rest"
proof -
  from assms have "0 < w"
    by (auto simp: DecodeRuneInString_def Let_def split: if_splits)
  then show ?thesis
    by (cases w) simp_all
qed

lemma kept_step:
  assumes d: "DecodeRuneInString (b # bs) = (c, w)" and n: "list_all isLower name"
  shows "take w (b # bs) @ rest = name
     \<longleftrightarrow> (\<exists>d ds. name = d # ds \<and> int c = int (byte d) \<and> rest = ds)"
proof (cases "byte b < 0x80")
  case True
  from decode_ascii [OF True, of bs] d have c: "c = byte b" "w = 1"
    by simp_all
  show ?thesis
    unfolding c by (auto simp: byte_eq_iff)
next
  case False
  then have hb: "0x80 \<le> byte b"
    by simp
  from decode_nonascii [OF hb d] have hc: "0x80 \<le> c" ..
  from take_width [OF d] obtain r where r: "take w (b # bs) = b # r"
    by blast
  have nb: "\<not> isLower b"
    using hb by (simp add: isLower_def byte_def)
  have "take w (b # bs) @ rest \<noteq> name"
  proof
    assume "take w (b # bs) @ rest = name"
    with r have "name = b # r @ rest"
      by simp
    with n nb show False
      by simp
  qed
  moreover have "\<not> (\<exists>d ds. name = d # ds \<and> int c = int (byte d) \<and> rest = ds)"
  proof
    assume "\<exists>d ds. name = d # ds \<and> int c = int (byte d) \<and> rest = ds"
    then obtain d ds where "name = d # ds" "c = byte d"
      by auto
    with n hc show False
      by (simp add: isLower_def byte_def)
  qed
  ultimately show ?thesis
    by simp
qed

lemma strings_Map_lowers:
  assumes "\<forall>r. 0x80 \<le> caseTable r" "list_all isLower name"
  shows "strings_Map (unicode_ToLower caseTable) s = name \<longleftrightarrow> list_all2 lowersTo (runes s) name"
  using assms(2)
proof (induction s arbitrary: name rule: length_induct)
  case (1 s)
  show ?case
  proof (cases s)
    case Nil
    then show ?thesis by auto
  next
    case (Cons b bs)
    obtain c w where d: "DecodeRuneInString (b # bs) = (c, w)"
      by (cases "DecodeRuneInString (b # bs)")
    then have "0 < w"
      by (auto simp: DecodeRuneInString_def Let_def split: if_splits)
    then have shorter: "length (drop w (b # bs)) < length s"
      using Cons by simp
    let ?r = "unicode_ToLower caseTable c"
    let ?tl = "drop w (b # bs)"
    have nn: "0 \<le> ?r"
      by (rule unicode_ToLower_nonneg [OF assms(1)])
    have rs: "runes s = c # runes ?tl"
      using Cons d by simp
    have tail: "list_all2 lowersTo (runes s) name
        \<longleftrightarrow> (\<exists>d ds. name = d # ds \<and> lowersTo c d \<and> list_all2 lowersTo (runes ?tl) ds)"
      unfolding rs by (auto simp: list_all2_Cons1)
    show ?thesis
    proof (cases "?r = int c \<and> \<not> (c = RuneError \<and> w = 1)")
      case True
      then have out: "strings_Map (unicode_ToLower caseTable) s =
          take w (b # bs) @ strings_Map (unicode_ToLower caseTable) ?tl"
        using Cons d by simp
      have "strings_Map (unicode_ToLower caseTable) s = name
          \<longleftrightarrow> (\<exists>d ds. name = d # ds \<and> int c = int (byte d)
                \<and> strings_Map (unicode_ToLower caseTable) ?tl = ds)"
        unfolding out by (rule kept_step [OF d "1.prems"])
      also have "\<dots> \<longleftrightarrow> (\<exists>d ds. name = d # ds \<and> lowersTo c d \<and> list_all2 lowersTo (runes ?tl) ds)"
      proof (intro ex_cong1 conj_cong refl)
        fix d ds assume n: "name = d # ds"
        with "1.prems" have l: "isLower d" "list_all isLower ds"
          by simp_all
        show "int c = int (byte d) \<longleftrightarrow> lowersTo c d"
          using lowers_iff [OF assms(1) l(1), of c] True by simp
        show "strings_Map (unicode_ToLower caseTable) ?tl = ds \<longleftrightarrow> list_all2 lowersTo (runes ?tl) ds"
          using "1.IH" shorter l(2) by blast
      qed
      finally show ?thesis
        unfolding tail .
    next
      case False
      have app: "AppendRune (nat ?r) = (if ?r < int RuneSelf then [char_of (nat ?r)] else AppendRune (nat ?r))"
        using nn AppendRune_ascii [of "nat ?r"] by (simp add: RuneSelf_def)
      have "strings_Map (unicode_ToLower caseTable) s =
          AppendRune (nat ?r) @ mapRest (unicode_ToLower caseTable) ?tl"
        using False Cons d nn by auto
      then have out: "strings_Map (unicode_ToLower caseTable) s =
          (if ?r < int RuneSelf then [char_of (nat ?r)] else AppendRune (nat ?r))
            @ mapRest (unicode_ToLower caseTable) ?tl"
        using app by simp
      have "strings_Map (unicode_ToLower caseTable) s = name
          \<longleftrightarrow> (\<exists>d ds. name = d # ds \<and> ?r = int (byte d)
                \<and> mapRest (unicode_ToLower caseTable) ?tl = ds)"
        unfolding out by (rule image_step [OF nn "1.prems"])
      also have "\<dots> \<longleftrightarrow> (\<exists>d ds. name = d # ds \<and> lowersTo c d \<and> list_all2 lowersTo (runes ?tl) ds)"
      proof (intro ex_cong1 conj_cong refl)
        fix d ds assume n: "name = d # ds"
        with "1.prems" have l: "isLower d" "list_all isLower ds"
          by simp_all
        show "?r = int (byte d) \<longleftrightarrow> lowersTo c d"
          by (rule lowers_iff [OF assms(1) l(1)])
        show "mapRest (unicode_ToLower caseTable) ?tl = ds \<longleftrightarrow> list_all2 lowersTo (runes ?tl) ds"
          by (rule mapRest_lowers [OF assms(1) l(2)])
      qed
      finally show ?thesis
        unfolding tail .
    qed
  qed
qed

lemma runes_ascii: "isASCII s \<Longrightarrow> runes s = map byte s"
proof (induction s)
  case Nil
  show ?case by simp
next
  case (Cons b bs)
  then have "byte b < 0x80" "isASCII bs"
    by (simp_all add: isASCII_def RuneSelf_def)
  with Cons.IH decode_ascii [of b bs] show ?case
    by simp
qed

lemma variant_ascii:
  assumes "isASCII s" "list_all isLower name"
  shows "unicodeVariant s name \<longleftrightarrow> caseVariant s name"
proof -
  have e: "lowersTo (byte c) d \<longleftrightarrow> c = d \<or> (isLower d \<and> byte c + 32 = byte d)"
    if "byte c < RuneSelf" "isLower d" for c d
    using that by (auto simp: lowersTo_def RuneSelf_def byte_eq_iff)
  have "list_all2 lowersTo (map byte s) name
      \<longleftrightarrow> list_all2 (\<lambda>c d. c = d \<or> (isLower d \<and> byte c + 32 = byte d)) s name"
    using assms unfolding isASCII_def
  proof (induction s arbitrary: name)
    case Nil
    show ?case by simp
  next
    case (Cons c s)
    show ?case
    proof (cases name)
      case Nil
      then show ?thesis by simp
    next
      case (Cons d ds)
      with Cons.prems Cons.IH [of ds] e [of c d] show ?thesis
        by simp
    qed
  qed
  then show ?thesis
    using assms(1) by (simp add: unicodeVariant_def caseVariant_def runes_ascii)
qed

lemma ToLower_lowers:
  assumes "\<forall>r. 0x80 \<le> caseTable r" "list_all isLower name"
  shows "ToLower caseTable s = name \<longleftrightarrow> unicodeVariant s name"
proof (cases "isASCII s")
  case True
  have "map lowerByte s = name \<longleftrightarrow> caseVariant s name"
  proof
    assume "map lowerByte s = name"
    with lower_caseVariant [OF True] assms(2) show "caseVariant s name"
      by auto
  next
    assume "caseVariant s name"
    from caseVariant_lower [OF this assms(2)] show "map lowerByte s = name"
      by simp
  qed
  with True variant_ascii [OF True assms(2)] show ?thesis
    by (simp add: ToLower_ascii)
next
  case False
  with strings_Map_lowers [OF assms] show ?thesis
    by (simp add: ToLower_def unicodeVariant_def)
qed

lemma ParseLevel_unicodeVariant:
  assumes "\<forall>r. 0x80 \<le> caseTable r" "name \<in> set levelNames" "unicodeVariant s name"
  shows "ParseLevel caseTable s = (name, True)"
proof -
  from ToLower_lowers [OF assms(1) levelNames_lower [OF assms(2)]] assms(3)
  have "ToLower caseTable s = name"
    by simp
  with levelsMap_name [OF assms(2)] show ?thesis
    by (simp add: ParseLevel_def)
qed

lemma ParseLevel_other:
  assumes "\<forall>r. 0x80 \<le> caseTable r" "\<forall>name\<in>set levelNames. \<not> unicodeVariant s name"
  shows "ParseLevel caseTable s = (DefaultLevel, False)"
proof (cases "levelsMap (ToLower caseTable s)")
  case None
  then show ?thesis by (simp add: ParseLevel_def)
next
  case (Some lv)
  from levelsMap_Some [OF Some] have n: "ToLower caseTable s \<in> set levelNames" ..
  from ToLower_lowers [OF assms(1) levelNames_lower [OF n], of s]
  have "unicodeVariant s (ToLower caseTable s)"
    by simp
  with n assms(2) show ?thesis
    by blast
qed

lemma caseVariant_unicodeVariant:
  assumes "name \<in> set levelNames"
  shows "(caseVariant s name \<longrightarrow> unicodeVariant s name)
    \<and> (isASCII s \<and> unicodeVariant s name \<longrightarrow> caseVariant s name)"
proof -
  note l = levelNames_lower [OF assms]
  have "unicodeVariant s name" if "caseVariant s name"
  proof -
    from caseVariant_lower [OF that l] have "isASCII s"
      by simp
    from variant_ascii [OF this l] that show ?thesis
      by simp
  qed
  moreover have "caseVariant s name" if "isASCII s" "unicodeVariant s name"
    using variant_ascii [OF that(1) l] that(2) by simp
  ultimately show ?thesis
    by blast
qed

lemma plainTable_high: "\<forall>r. 0x80 \<le> plainTable r"
  by (simp add: plainTable_def)

section \<open>The claims\<close>







text \<open>
  C3. For every logger \<open>l\<close> of a store, every level and every slice of tags,
  \<^verbatim>\<open>WithLevel\<close> and \<^verbatim>\<open>WithTags\<close> return a reference to a new logger, which is the copy
  of the receiver with the one field replaced and the prefix recomputed, and leave the
  receiver as it was: the struct behind \<open>l\<close> has the same four fields, no array and no
  sink has changed, and \<^verbatim>\<open>Level()\<close> and \<^verbatim>\<open>Tags()\<close> of \<open>l\<close> give what they gave before.
\<close>

theorem With_leaves_receiver:
  assumes "deref s l = Some lg"
  shows "(\<exists>s' l'. WithLevel s l x = Some (s', l') \<and> l' \<noteq> l
            \<and> deref s' l' = Some (updateLinePrefix (arrays s) (lg\<lparr>level := x\<rparr>))
            \<and> deref s' l = Some lg \<and> arrays s' = arrays s \<and> sinks s' = sinks s
            \<and> Level s' l = Level s l \<and> tagsOf s' l = tagsOf s l)
       \<and> (\<exists>s' l'. WithTags s l ts = Some (s', l') \<and> l' \<noteq> l
            \<and> deref s' l' = Some (updateLinePrefix (arrays s) (lg\<lparr>tags := ts\<rparr>))
            \<and> deref s' l = Some lg \<and> arrays s' = arrays s \<and> sinks s' = sinks s
            \<and> Level s' l = Level s l \<and> tagsOf s' l = tagsOf s l)"
  using assms
  by (auto simp: WithLevel_def WithTags_def Let_def deref_def Level_def tagsOf_def Tags_def
      nth_append split: if_splits)

theorem With_leaves_receiver_witness:
  "deref store2 0 = Some (loggers store2 ! 0)
   \<and> (\<exists>s' l'. WithLevel store2 0 SpamLevel = Some (s', l') \<and> l' \<noteq> 0
         \<and> deref s' 0 = Some (loggers store2 ! 0) \<and> Level s' 0 = Some ''info''
         \<and> Level s' l' = Some ''spam'' \<and> tagsOf s' 0 = Some [])
   \<and> (\<exists>s' l'. WithTags store2 0 NilSlice = Some (s', l') \<and> l' \<noteq> 0
         \<and> deref s' 0 = Some (loggers store2 ! 0) \<and> Level s' 0 = Some ''info'' \<and> tagsOf s' 0 = Some [])"
proof -
  have d: "deref store2 0 = Some (loggers store2 ! 0)"
    by (simp add: store2_eq deref_def)
  have l: "Level store2 0 = Some ''info''" "tagsOf store2 0 = Some []"
    by (simp_all add: store2_eq store_defs)
  from With_leaves_receiver [OF d, of SpamLevel NilSlice] d l show ?thesis
    by (auto simp: Level_def updateLinePrefix_def SpamLevel_def)
qed

text \<open>
  C4. The claim is that \<^verbatim>\<open>ParseLevel\<close> returns the default level and false on every
  string that is not a letter-case variant of a level name. It does not:
  \<^verbatim>\<open>strings.ToLower\<close> lower-cases by Unicode, which maps U+0130, the capital I with a dot
  above, to \<^verbatim>\<open>i\<close>. The five bytes 0xC4, 0xB0, \<^verbatim>\<open>N\<close>, \<^verbatim>\<open>F\<close>, \<^verbatim>\<open>O\<close> are the runes U+0130,
  \<^verbatim>\<open>N\<close>, \<^verbatim>\<open>F\<close>, \<^verbatim>\<open>O\<close>; they are no letter-case variant of any of the seven names, and
  \<^verbatim>\<open>ParseLevel\<close> returns info and true on them.
\<close>

theorem ParseLevel_dotted_I_counterexample:
  "ParseLevel plainTable [CHR 0xC4, CHR 0xB0, CHR ''N'', CHR ''F'', CHR ''O''] = (InfoLevel, True)
   \<and> \<not> list_ex (caseVariant [CHR 0xC4, CHR 0xB0, CHR ''N'', CHR ''F'', CHR ''O'']) levelNames
   \<and> runes [CHR 0xC4, CHR 0xB0, CHR ''N'', CHR ''F'', CHR ''O''] = [0x130, byte (CHR ''N''), byte (CHR ''F''), byte (CHR ''O'')]"
  by code_simp

text \<open>
  C4, as amended. \<^verbatim>\<open>ParseLevel\<close> returns a level and a flag for every string. With a
  case table that maps no rune above ASCII to an ASCII rune other than U+0130 to \<^verbatim>\<open>i\<close>
  and U+212A to \<^verbatim>\<open>k\<close>: for each of the seven level names it returns the name and true
  on every string whose runes are, place by place, the letter of the name, its
  upper-case form, or the rune above ASCII that lower-cases to the letter; on every
  other string it returns the default level, info, and false. Every letter-case variant
  of a name is such a string, and an ASCII string is such a string only if it is a
  letter-case variant. A variant of a name with white space before or after it gets the
  default level and false, since nothing is trimmed.
\<close>

theorem ParseLevel_unicode_variants:
  assumes "\<forall>r. 0x80 \<le> caseTable r"
  shows "(name \<in> set levelNames \<and> unicodeVariant s name \<longrightarrow> ParseLevel caseTable s = (name, True))
   \<and> ((\<forall>n\<in>set levelNames. \<not> unicodeVariant s n) \<longrightarrow>
        ParseLevel caseTable s = (DefaultLevel, False))
   \<and> (name \<in> set levelNames \<and> caseVariant s name \<longrightarrow> unicodeVariant s name)
   \<and> (name \<in> set levelNames \<and> isASCII s \<and> unicodeVariant s name \<longrightarrow> caseVariant s name)
   \<and> (name \<in> set levelNames \<and> caseVariant v name \<and> ws \<noteq> [] \<and> list_all isSpace ws \<longrightarrow>
        ParseLevel caseTable (ws @ v) = (DefaultLevel, False)
        \<and> ParseLevel caseTable (v @ ws) = (DefaultLevel, False))
   \<and> levelNames =
        [FatalLevel, ErrorLevel, WarnLevel, InfoLevel, VerboseLevel, DebugLevel, SpamLevel]
   \<and> DefaultLevel = ''info''"
  using ParseLevel_unicodeVariant [OF assms, of name s] ParseLevel_other [OF assms, of s]
    caseVariant_unicodeVariant [of name s] ParseLevel_padded [of name v ws caseTable]
  by (simp add: levelNames_def level_defs)

theorem ParseLevel_unicode_variants_witness:
  "''spam'' \<in> set levelNames \<and> caseVariant ''SpAm'' ''spam'' \<and> unicodeVariant ''SpAm'' ''spam''
   \<and> ParseLevel plainTable ''SpAm'' = (''spam'', True)
   \<and> ''info'' \<in> set levelNames \<and> \<not> isASCII [CHR 0xC4, CHR 0xB0, CHR ''n'', CHR ''f'', CHR ''o'']
   \<and> unicodeVariant [CHR 0xC4, CHR 0xB0, CHR ''n'', CHR ''f'', CHR ''o''] ''info''
   \<and> ParseLevel plainTable [CHR 0xC4, CHR 0xB0, CHR ''n'', CHR ''f'', CHR ''o''] = (''info'', True)
   \<and> isASCII ''unknown'' \<and> \<not> list_ex (unicodeVariant ''unknown'') levelNames
   \<and> ParseLevel plainTable ''unknown'' = (''info'', False)
   \<and> \<not> list_ex (unicodeVariant [CHR 0xC3, CHR 0x8C, CHR ''n'', CHR ''f'', CHR ''o'']) levelNames
   \<and> ParseLevel plainTable [CHR 0xC3, CHR 0x8C, CHR ''n'', CHR ''f'', CHR ''o''] = (''info'', False)
   \<and> caseVariant ''spam'' ''spam'' \<and> list_all isSpace ''  ''
   \<and> ParseLevel plainTable ''  spam'' = (''info'', False)
   \<and> ParseLevel plainTable ''spam  '' = (''info'', False)"
proof -
  note t = plainTable_high
  have n: "''spam'' \<in> set levelNames" "''info'' \<in> set levelNames"
    by (simp_all add: levelNames_def)
  have v: "caseVariant ''SpAm'' ''spam''" "caseVariant ''spam'' ''spam''"
    by (simp_all add: caseVariant_def isLower_def byte_def)
  have a: "isASCII ''unknown''" "\<not> isASCII [CHR 0xC4, CHR 0xB0, CHR ''n'', CHR ''f'', CHR ''o'']"
    by (simp_all add: isASCII_def byte_def RuneSelf_def)
  have i: "unicodeVariant [CHR 0xC4, CHR 0xB0, CHR ''n'', CHR ''f'', CHR ''o''] ''info''"
    by code_simp
  have u': "\<not> list_ex (unicodeVariant ''unknown'') levelNames"
    "\<not> list_ex (unicodeVariant [CHR 0xC3, CHR 0x8C, CHR ''n'', CHR ''f'', CHR ''o'']) levelNames"
    by code_simp+
  then have u: "\<forall>n\<in>set levelNames. \<not> unicodeVariant ''unknown'' n"
    "\<forall>n\<in>set levelNames. \<not> unicodeVariant [CHR 0xC3, CHR 0x8C, CHR ''n'', CHR ''f'', CHR ''o''] n"
    by (simp_all add: list_ex_iff)
  have w: "''  '' \<noteq> []" "list_all isSpace ''  ''"
    by (simp_all add: isSpace_def)
  from ParseLevel_unicode_variants [OF t, of "''spam''" "''SpAm''" "''spam''" "''  ''"] n v
  have 0: "unicodeVariant ''SpAm'' ''spam''" by blast
  from ParseLevel_unicode_variants [OF t, of "''spam''" "''SpAm''" "''spam''" "''  ''"] n 0
  have 1: "ParseLevel plainTable ''SpAm'' = (''spam'', True)" by blast
  from ParseLevel_unicode_variants [OF t, of "''spam''" "''unknown''" "''spam''" "''  ''"] n v u(1) w
  have 2: "ParseLevel plainTable ''unknown'' = (''info'', False)"
    and 3: "ParseLevel plainTable (''  '' @ ''spam'') = (''info'', False)"
    and 4: "ParseLevel plainTable (''spam'' @ ''  '') = (''info'', False)"
    by (simp_all add: level_defs)
  from ParseLevel_unicode_variants [OF t, of "''info''" "[CHR 0xC4, CHR 0xB0, CHR ''n'', CHR ''f'', CHR ''o'']" "''spam''" "''  ''"] n i
  have 5: "ParseLevel plainTable [CHR 0xC4, CHR 0xB0, CHR ''n'', CHR ''f'', CHR ''o''] = (''info'', True)"
    by blast
  from ParseLevel_unicode_variants [OF t, of "''info''" "[CHR 0xC3, CHR 0x8C, CHR ''n'', CHR ''f'', CHR ''o'']" "''spam''" "''  ''"] u(2)
  have 6: "ParseLevel plainTable [CHR 0xC3, CHR 0x8C, CHR ''n'', CHR ''f'', CHR ''o''] = (''info'', False)"
    by (simp add: level_defs)
  from n v a i u' w 0 1 2 3 4 5 6 show ?thesis
    by simp
qed

text \<open>
  C5. When every line of the buffer is short, so that scanning succeeds, \<^verbatim>\<open>Write\<close> on a
  logger with a sink hands the sink one record for every line of the buffer split at its
  newline bytes, in the order of the input, a last line without a newline included, each
  line without a trailing carriage return; this is the store that calling \<^verbatim>\<open>Print\<close> once
  for every scanned line gives. It returns the length of the buffer and no error. The
  bytes \<^verbatim>\<open>foo\<close>, newline, \<^verbatim>\<open>bar\<close> give the two records of \<^verbatim>\<open>foo\<close> and \<^verbatim>\<open>bar\<close> and the
  result (7, nil).
\<close>

theorem Write_prints_each_line:
  assumes "deref s l = Some lg" and "output lg < length (sinks s)"
    and "list_all shortLine (splitLines p)"
  shows "Write s l p =
           Some (deliver s (output lg) (map (\<lambda>ln. logRecord lg (dropCR ln)) (splitLines p)),
                 length p, None)
         \<and> map_option fst (Write s l p) = printAll s l (map dropCR (splitLines p))"
proof -
  have "Write s l p =
      Some (deliver s (output lg) (map (\<lambda>ln. logRecord lg (dropCR ln)) (splitLines p)),
            length p, None)"
    using scanLoop_eq [OF assms(1,2), of p] assms(3)
    by (simp add: Write_def takeWhile_all)
  then show ?thesis
    using printAll_eq [OF assms(1,2), of "map dropCR (splitLines p)"]
    by (simp add: comp_def)
qed

theorem Write_prints_each_line_witness:
  "deref store2 0 = Some (loggers store2 ! 0)
   \<and> output (loggers store2 ! 0) < length (sinks store2)
   \<and> list_all shortLine (splitLines (''foo'' @ [newline] @ ''bar''))
   \<and> Write store2 0 (''foo'' @ [newline] @ ''bar'') =
       Some (deliver store2 0 [infoPrefix @ ''foo'' @ resetSuffix, infoPrefix @ ''bar'' @ resetSuffix],
             7, None)"
proof -
  have d: "deref store2 0 = Some (loggers store2 ! 0)"
    by (simp add: store2_eq deref_def)
  have o: "output (loggers store2 ! 0) < length (sinks store2)"
    by (simp add: store2_eq)
  have sp: "splitLines (''foo'' @ [newline] @ ''bar'') = [''foo'', ''bar'']"
    by (simp add: newline_def)
  have sh: "list_all shortLine (splitLines (''foo'' @ [newline] @ ''bar''))"
    unfolding sp by (simp add: scan_defs)
  from Write_prints_each_line [OF d o sh] d o sh show ?thesis
    unfolding sp by (simp add: store2_eq scan_defs)
qed

text \<open>
  C6. The claim is that a sink write failure during \<^verbatim>\<open>Write\<close> is surfaced to the caller
  as a non-nil error with zero bytes consumed. It is not: on the logger 1 of the example
  store, whose sink answers every write with an error, the sink's \<^verbatim>\<open>Write\<close> of the
  record of \<^verbatim>\<open>foo\<close> returns that error and \<^verbatim>\<open>Write\<close> of the three bytes \<^verbatim>\<open>foo\<close> returns
  (3, nil).
\<close>

theorem Write_hides_sink_failure_counterexample:
  "map_option snd (sinkWrite store2 1 (logRecord (loggers store2 ! 1) ''foo'')) =
     Some (0, Some (OtherError ''write failed''))
   \<and> map_option snd (Write store2 1 ''foo'') = Some (3, None)"
proof -
  have d: "deref store2 1 = Some (loggers store2 ! 1)"
    by (simp add: store2_eq deref_def)
  have o: "output (loggers store2 ! 1) < length (sinks store2)"
    by (simp add: store2_eq)
  have sp: "splitLines ''foo'' = [''foo'']"
    by (simp add: newline_def)
  have "scanLoop store2 1 ''foo'' =
      Some (deliver store2 (output (loggers store2 ! 1))
              [logRecord (loggers store2 ! 1) (dropCR ''foo'')], None)"
    using scanLoop_eq [OF d o, of "''foo''"] unfolding sp by (simp add: scan_defs)
  then have "map_option snd (Write store2 1 ''foo'') = Some (3, None)"
    by (simp add: Write_def)
  moreover have "map_option snd (sinkWrite store2 1 (logRecord (loggers store2 ! 1) ''foo'')) =
      Some (0, Some (OtherError ''write failed''))"
    by (simp add: sinkWrite_def store2_eq failingSink_def)
  ultimately show ?thesis
    by (simp only:)
qed

text \<open>
  C6, as amended. For every store, every logger with a sink and every buffer, whatever
  the sink answers: when some line of the buffer has \<open>MaxScanTokenSize\<close> bytes or more, the
  scan fails and \<^verbatim>\<open>Write\<close> returns zero bytes consumed and the error \<^verbatim>\<open>ErrTooLong\<close>, after
  the records of the lines before the first such line have gone to the sink; otherwise
  \<^verbatim>\<open>Write\<close> returns the length of the buffer and no error.
\<close>

theorem Write_surfaces_scan_failure_only:
  assumes "deref s l = Some lg" and "output lg < length (sinks s)"
  shows "(\<not> list_all shortLine (splitLines p) \<longrightarrow>
            Write s l p =
              Some (deliver s (output lg)
                      (map (\<lambda>ln. logRecord lg (dropCR ln)) (takeWhile shortLine (splitLines p))),
                    0, Some ErrTooLong))
       \<and> (list_all shortLine (splitLines p) \<longrightarrow>
            Write s l p =
              Some (deliver s (output lg) (map (\<lambda>ln. logRecord lg (dropCR ln)) (splitLines p)),
                    length p, None))"
  using scanLoop_eq [OF assms, of p]
  by (simp add: Write_def takeWhile_all)

theorem Write_surfaces_scan_failure_only_witness:
  "deref store2 1 = Some (loggers store2 ! 1)
   \<and> output (loggers store2 ! 1) < length (sinks store2)
   \<and> \<not> list_all shortLine (splitLines (replicate MaxScanTokenSize (CHR ''a'')))
   \<and> Write store2 1 (replicate MaxScanTokenSize (CHR ''a'')) = Some (store2, 0, Some ErrTooLong)
   \<and> list_all shortLine (splitLines ''foo'')
   \<and> Write store2 1 ''foo'' =
       Some (deliver store2 1 [infoPrefix @ ''foo'' @ resetSuffix], 3, None)"
proof -
  let ?p = "replicate MaxScanTokenSize (CHR ''a'')"
  have d: "deref store2 1 = Some (loggers store2 ! 1)"
    by (simp add: store2_eq deref_def)
  have o: "output (loggers store2 ! 1) < length (sinks store2)"
    by (simp add: store2_eq)
  have "?p \<noteq> []" "newline \<notin> set ?p"
    by (simp_all add: MaxScanTokenSize_def newline_def)
  then have sp: "splitLines ?p = [?p]"
    by (rule splitLines_no_newline)
  have long: "\<not> list_all shortLine (splitLines ?p)"
    unfolding sp by (simp add: shortLine_def)
  have tw: "takeWhile shortLine (splitLines ?p) = []"
    unfolding sp by (simp add: shortLine_def)
  have sp2: "splitLines ''foo'' = [''foo'']"
    by (simp add: newline_def)
  have short: "list_all shortLine (splitLines ''foo'')"
    unfolding sp2 by (simp add: scan_defs)
  from Write_surfaces_scan_failure_only [OF d o, of ?p] long tw
  have 1: "Write store2 1 ?p = Some (store2, 0, Some ErrTooLong)"
    using o by (simp add: deliver_Nil)
  from Write_surfaces_scan_failure_only [OF d o, of "''foo''"] short
  have 2: "Write store2 1 ''foo'' = Some (deliver store2 1 [infoPrefix @ ''foo'' @ resetSuffix], 3, None)"
    unfolding sp2 by (simp add: store2_eq scan_defs)
  from d o long 1 short 2 show ?thesis by blast
qed

text \<open>
  C7. For every level and every value of the tags (nil or any list of strings), the
  level payload and the tags payload that the encoder puts into the prefix are made of
  ordinary bytes and two-byte escapes only, so that no backslash stands unescaped in
  them, and the escape byte 0x1B does not occur in them. The single tag made of the
  escape byte and a backslash is encoded as the array of one string whose content is
  backslash, u001b, backslash, backslash.
\<close>

theorem klio_payload_framing:
  "encodePrefix lv tv =
     [ESC] @ ''_klio_log_level '' @ levelField (Marshal_string lv) @ [ESC, bslash]
       @ [ESC] @ ''_klio_tags '' @ tagsField (Marshal_strings tv) @ [ESC, bslash]
   \<and> wellEscaped (levelField (Marshal_string lv))
   \<and> ESC \<notin> set (levelField (Marshal_string lv))
   \<and> wellEscaped (tagsField (Marshal_strings tv))
   \<and> ESC \<notin> set (tagsField (Marshal_strings tv))
   \<and> tagsField (Marshal_strings (Some [[ESC, bslash]])) =
       [CHR ''['', quote, bslash] @ ''u001b'' @ [bslash, bslash, quote, CHR '']'']"
proof -
  have "tagsField (Marshal_strings (Some [[ESC, bslash]])) =
      [CHR ''['', quote, bslash] @ ''u001b'' @ [bslash, bslash, quote, CHR '']'']"
    by (simp add: tagsField_def Marshal_strings_def appendString_def byte_def RuneSelf_def
        htmlSafe_def escapeByte_def hex_def ESC_def bslash_def quote_def)
  then show ?thesis
    using levelField_wellEscaped [of lv] tagsField_wellEscaped [of tv]
      wellEscaped_no_ESC [of "levelField (Marshal_string lv)"]
      wellEscaped_no_ESC [of "tagsField (Marshal_strings tv)"]
    by (simp add: encodePrefix_def formatPrefix_def)
qed

text \<open>
  C8. When the encoding of the level fails, the encoder uses the quoted default level,
  and when the encoding of the tags fails, it uses \<^verbatim>\<open>[]\<close>; the prefix is then the one of
  level info without tags. No operation that encodes returns a failure: \<^verbatim>\<open>WithLevel\<close>
  and \<^verbatim>\<open>WithTags\<close> return a logger for every receiver that is one. A call of \<^verbatim>\<open>WithTags\<close>
  without arguments passes the nil slice, which marshals to \<^verbatim>\<open>null\<close>; the logger it
  returns has the prefix of a logger with the empty list of tags, its \<^verbatim>\<open>Tags()\<close> is
  empty, and the tags field of every record it prints is \<^verbatim>\<open>[]\<close>.
\<close>

theorem encoder_falls_back:
  "levelField (Inl e) = [quote] @ ''info'' @ [quote]
   \<and> tagsField (Inl e) = ''[]''
   \<and> formatPrefix (levelField (Inl e)) (tagsField (Inl e')) =
       [ESC] @ ''_klio_log_level '' @ [quote] @ ''info'' @ [quote] @ [ESC, bslash]
         @ [ESC] @ ''_klio_tags []'' @ [ESC, bslash]
   \<and> variadic s [] = (s, NilSlice)
   \<and> Marshal_strings (sliceValue (arrays s) NilSlice) = Inr ''null''
   \<and> (deref s l = Some lg \<longrightarrow>
        WithLevel s l lv \<noteq> None \<and> WithTags s l ts \<noteq> None
        \<and> (\<exists>s' l'. WithTags (fst (variadic s [])) l (snd (variadic s [])) = Some (s', l')
              \<and> linePrefix (loggers s' ! l') =
                  [ESC] @ ''_klio_log_level '' @ appendString (level lg) @ [ESC, bslash]
                    @ [ESC] @ ''_klio_tags []'' @ [ESC, bslash]
              \<and> linePrefix (loggers s' ! l') = encodePrefix (level lg) (Some [])
              \<and> tagsOf s' l' = Some []
              \<and> (output lg < length (sinks s) \<longrightarrow>
                    Print s' l' v = Some (deliver s' (output lg)
                      [[ESC] @ ''_klio_log_level '' @ appendString (level lg) @ [ESC, bslash]
                         @ [ESC] @ ''_klio_tags []'' @ [ESC, bslash] @ Sprint v @ resetSuffix], l'))))"
proof -
  have fallback: "levelField (Inl e) = [quote] @ ''info'' @ [quote]" "tagsField (Inl e) = ''[]''"
      "formatPrefix (levelField (Inl e)) (tagsField (Inl e')) =
         [ESC] @ ''_klio_log_level '' @ [quote] @ ''info'' @ [quote] @ [ESC, bslash]
           @ [ESC] @ ''_klio_tags []'' @ [ESC, bslash]"
    by (simp_all add: levelField_def tagsField_def formatPrefix_def DefaultLevel_def InfoLevel_def)
  have nil: "variadic s [] = (s, NilSlice)"
      "Marshal_strings (sliceValue (arrays s) NilSlice) = Inr ''null''"
    by (simp_all add: variadic_def Marshal_strings_def)
  have total: "WithLevel s l lv \<noteq> None \<and> WithTags s l ts \<noteq> None"
    if "deref s l = Some lg"
    using that by (simp add: WithLevel_def WithTags_def Let_def)
  have notags: "\<exists>s' l'. WithTags (fst (variadic s [])) l (snd (variadic s [])) = Some (s', l')
      \<and> linePrefix (loggers s' ! l') =
          [ESC] @ ''_klio_log_level '' @ appendString (level lg) @ [ESC, bslash]
            @ [ESC] @ ''_klio_tags []'' @ [ESC, bslash]
      \<and> linePrefix (loggers s' ! l') = encodePrefix (level lg) (Some [])
      \<and> tagsOf s' l' = Some []
      \<and> (output lg < length (sinks s) \<longrightarrow>
            Print s' l' v = Some (deliver s' (output lg)
              [[ESC] @ ''_klio_log_level '' @ appendString (level lg) @ [ESC, bslash]
                 @ [ESC] @ ''_klio_tags []'' @ [ESC, bslash] @ Sprint v @ resetSuffix], l'))"
    if d: "deref s l = Some lg"
  proof -
    let ?n = "updateLinePrefix (arrays s) (lg\<lparr>tags := NilSlice\<rparr>)"
    let ?s' = "s\<lparr>loggers := loggers s @ [?n]\<rparr>"
    let ?l' = "length (loggers s)"
    have w: "WithTags (fst (variadic s [])) l (snd (variadic s [])) = Some (?s', ?l')"
      using d by (simp add: variadic_def WithTags_def Let_def)
    have p: "linePrefix (loggers ?s' ! ?l') =
        [ESC] @ ''_klio_log_level '' @ appendString (level lg) @ [ESC, bslash]
          @ [ESC] @ ''_klio_tags []'' @ [ESC, bslash]"
      using encodePrefix_eq [of "level lg" "arrays s" NilSlice]
      by (simp add: updateLinePrefix_def)
    have q: "linePrefix (loggers ?s' ! ?l') = encodePrefix (level lg) (Some [])"
      unfolding p by (simp add: encodePrefix_def formatPrefix_def levelField_eq tagsField_eq)
    have d': "deref ?s' ?l' = Some ?n"
      by (simp add: deref_def)
    have t: "tagsOf ?s' ?l' = Some []"
      using tagsOf_eq [OF d'] by (simp add: updateLinePrefix_def)
    have "Print ?s' ?l' v = Some (deliver ?s' (output lg)
        [[ESC] @ ''_klio_log_level '' @ appendString (level lg) @ [ESC, bslash]
           @ [ESC] @ ''_klio_tags []'' @ [ESC, bslash] @ Sprint v @ resetSuffix], ?l')"
      if "output lg < length (sinks s)"
      using Print_eq [OF d', of v] that p by (simp add: updateLinePrefix_def)
    with w p q t show ?thesis
      by blast
  qed
  from fallback nil total notags show ?thesis
    by blast
qed

theorem encoder_falls_back_witness:
  "deref store2 0 = Some (loggers store2 ! 0)
   \<and> (\<exists>s' l'. WithTags (fst (variadic store2 [])) 0 (snd (variadic store2 [])) = Some (s', l')
         \<and> linePrefix (loggers s' ! l') = infoPrefix \<and> tagsOf s' l' = Some [])"
proof -
  have d: "deref store2 0 = Some (loggers store2 ! 0)"
    by (simp add: store2_eq deref_def)
  have a: "appendString (level (loggers store2 ! 0)) = [quote] @ ''info'' @ [quote]"
    by (simp add: store2_eq json_defs)
  from encoder_falls_back [where s = store2 and l = 0 and lg = "loggers store2 ! 0"] d
  obtain s' l' where "WithTags (fst (variadic store2 [])) 0 (snd (variadic store2 [])) = Some (s', l')"
    and "linePrefix (loggers s' ! l') =
      [ESC] @ ''_klio_log_level '' @ appendString (level (loggers store2 ! 0)) @ [ESC, bslash]
        @ [ESC] @ ''_klio_tags []'' @ [ESC, bslash]"
    and "tagsOf s' l' = Some []"
    by blast
  with d a show ?thesis
    by (auto simp: infoPrefix_def)
qed

text \<open>
  C9. In a well-formed store, \<^verbatim>\<open>Tags()\<close> of a logger returns a slice whose elements are
  the logger's tags, in order, and changes no logger. The caller can assign to every
  element of the returned slice, and after any such assignment every logger of the store
  is the same struct, every array that existed before the call is unchanged, the tags of
  every logger read as before, and \<^verbatim>\<open>Tags()\<close> of every logger returns what it returned
  before.
\<close>

theorem Tags_returns_copy:
  assumes "wellFormed s" and "deref s l = Some lg"
  shows "\<exists>s1 r. Tags s l = Some (s1, r)
           \<and> sliceElems (arrays s1) r = sliceElems (arrays s) (tags lg)
           \<and> loggers s1 = loggers s
           \<and> (\<forall>i<length (sliceElems (arrays s) (tags lg)). \<forall>v. setIndex s1 r i v \<noteq> None)
           \<and> (\<forall>i v s2. setIndex s1 r i v = Some s2 \<longrightarrow>
                 loggers s2 = loggers s
                 \<and> take (length (arrays s)) (arrays s2) = arrays s
                 \<and> (\<forall>k lk. deref s k = Some lk \<longrightarrow>
                       sliceElems (arrays s2) (tags lk) = sliceElems (arrays s) (tags lk)
                       \<and> tagsOf s2 k = tagsOf s k))"
proof -
  from assms have v: "validSlice (arrays s) (tags lg)"
    by (auto simp: wellFormed_def deref_def list_all_length split: if_splits)
  let ?xs = "sliceElems (arrays s) (tags lg)"
  let ?s1 = "s\<lparr>arrays := arrays s @ [?xs]\<rparr>"
  let ?r = "Slice (length (arrays s)) 0 (length ?xs)"
  have T: "Tags s l = Some (?s1, ?r)"
    by (rule Tags_eq [OF assms(2) v])
  have after: "loggers s2 = loggers s \<and> take (length (arrays s)) (arrays s2) = arrays s
      \<and> (\<forall>k lk. deref s k = Some lk \<longrightarrow>
            sliceElems (arrays s2) (tags lk) = sliceElems (arrays s) (tags lk)
            \<and> tagsOf s2 k = tagsOf s k)"
    if set: "setIndex ?s1 ?r i v = Some s2" for i v s2
  proof -
    from set have s2: "s2 = s\<lparr>arrays := arrays s @ [?xs[i := v]]\<rparr>"
      by (simp split: if_splits)
    have "sliceElems (arrays s2) (tags lk) = sliceElems (arrays s) (tags lk)
        \<and> tagsOf s2 k = tagsOf s k" if dk: "deref s k = Some lk" for k lk
    proof -
      from assms(1) dk have vk: "validSlice (arrays s) (tags lk)"
        by (auto simp: wellFormed_def deref_def list_all_length split: if_splits)
      have dk2: "deref s2 k = Some lk"
        using dk by (auto simp: s2 deref_def split: if_splits)
      have vk2: "validSlice (arrays s2) (tags lk)"
        using validSlice_append [OF vk] by (simp add: s2)
      have e: "sliceElems (arrays s2) (tags lk) = sliceElems (arrays s) (tags lk)"
        using sliceElems_append [OF vk] by (simp add: s2)
      with tagsOf_eq [OF dk2 vk2] tagsOf_eq [OF dk vk] show ?thesis
        by simp
    qed
    then show ?thesis
      by (simp add: s2)
  qed
  show ?thesis
  proof (intro exI conjI)
    show "Tags s l = Some (?s1, ?r)"
      by (rule T)
    show "sliceElems (arrays ?s1) ?r = ?xs"
      by simp
    show "loggers ?s1 = loggers s"
      by simp
    show "\<forall>i<length ?xs. \<forall>v. setIndex ?s1 ?r i v \<noteq> None"
      by simp
    show "\<forall>i v s2. setIndex ?s1 ?r i v = Some s2 \<longrightarrow>
        loggers s2 = loggers s
        \<and> take (length (arrays s)) (arrays s2) = arrays s
        \<and> (\<forall>k lk. deref s k = Some lk \<longrightarrow>
              sliceElems (arrays s2) (tags lk) = sliceElems (arrays s) (tags lk)
              \<and> tagsOf s2 k = tagsOf s k)"
      using after by blast
  qed
qed

theorem Tags_returns_copy_witness:
  "wellFormed store5 \<and> deref store5 3 = Some (loggers store5 ! 3)
   \<and> (\<exists>s1 r. Tags store5 3 = Some (s1, r) \<and> sliceElems (arrays s1) r = [''a'', ''b'', ''c'']
        \<and> (\<exists>s2. setIndex s1 r 0 ''xyz'' = Some s2 \<and> sliceElems (arrays s2) r = [''xyz'', ''b'', ''c'']
              \<and> tagsOf s2 3 = Some [''a'', ''b'', ''c''] \<and> tagsOf s2 2 = Some [''a'', ''b'', ''c'']))"
proof -
  have w: "wellFormed store5"
    by (simp add: store5_eq wellFormed_def)
  have d: "deref store5 3 = Some (loggers store5 ! 3)" "deref store5 2 = Some (loggers store5 ! 2)"
    by (simp_all add: store5_eq deref_def)
  have e: "sliceElems (arrays store5) (tags (loggers store5 ! 3)) = [''a'', ''b'', ''c'']"
     "tagsOf store5 3 = Some [''a'', ''b'', ''c'']" "tagsOf store5 2 = Some [''a'', ''b'', ''c'']"
    by (simp_all add: store5_eq store_defs)
  from Tags_returns_copy [OF w d(1)] obtain s1 r where
    T: "Tags store5 3 = Some (s1, r)"
    and c: "sliceElems (arrays s1) r = sliceElems (arrays store5) (tags (loggers store5 ! 3))"
    and ok: "\<forall>i<length (sliceElems (arrays store5) (tags (loggers store5 ! 3))). \<forall>v.
        setIndex s1 r i v \<noteq> None"
    and fr: "\<forall>i v s2. setIndex s1 r i v = Some s2 \<longrightarrow>
        loggers s2 = loggers store5
        \<and> take (length (arrays store5)) (arrays s2) = arrays store5
        \<and> (\<forall>k lk. deref store5 k = Some lk \<longrightarrow>
              sliceElems (arrays s2) (tags lk) = sliceElems (arrays store5) (tags lk)
              \<and> tagsOf s2 k = tagsOf store5 k)"
    by blast
  note c = c [unfolded e]
  from ok have "setIndex s1 r 0 ''xyz'' \<noteq> None"
    unfolding e by simp
  then obtain s2 where s2: "setIndex s1 r 0 ''xyz'' = Some s2"
    by blast
  with fr d e have "tagsOf s2 3 = Some [''a'', ''b'', ''c'']" "tagsOf s2 2 = Some [''a'', ''b'', ''c'']"
    by metis+
  moreover have "sliceElems (arrays s2) r = [''xyz'', ''b'', ''c'']"
    using T s2 c by (auto simp: store5_eq store_defs split: if_splits)
  ultimately show ?thesis
    using w d T s2 c by simp
qed

text \<open>
  C10. For a buffer that ends with a newline, all of its lines short, \<^verbatim>\<open>Write\<close> hands the
  sink one record for every line and returns the length of the buffer and no error;
  the records are as many as the newline bytes of the buffer, and the last newline adds
  no record to those of the buffer without it when that one ends in an unterminated
  line. \<^verbatim>\<open>Write\<close> of the empty buffer changes nothing and returns (0, nil), on every
  store and for every logger reference.
\<close>

theorem Write_no_record_after_last_newline:
  assumes "deref s l = Some lg" and "output lg < length (sinks s)"
    and "list_all shortLine (splitLines (q @ [newline]))"
  shows "Write s l (q @ [newline]) =
           Some (deliver s (output lg)
                   (map (\<lambda>ln. logRecord lg (dropCR ln)) (splitLines (q @ [newline]))),
                 length q + 1, None)
         \<and> length (splitLines (q @ [newline])) = length (filter (\<lambda>c. c = newline) (q @ [newline]))
         \<and> (q \<noteq> [] \<and> last q \<noteq> newline \<longrightarrow> splitLines (q @ [newline]) = splitLines q)
         \<and> Write s' l' [] = Some (s', 0, None)"
proof -
  have "Write s l (q @ [newline]) =
      Some (deliver s (output lg)
              (map (\<lambda>ln. logRecord lg (dropCR ln)) (splitLines (q @ [newline]))),
            length q + 1, None)"
    using scanLoop_eq [OF assms(1,2), of "q @ [newline]"] assms(3)
    by (simp add: Write_def takeWhile_all)
  moreover have "length (splitLines (q @ [newline])) = length (filter (\<lambda>c. c = newline) (q @ [newline]))"
    by (simp add: length_splitLines)
  moreover have "q \<noteq> [] \<and> last q \<noteq> newline \<longrightarrow> splitLines (q @ [newline]) = splitLines q"
    by (simp add: splitLines_snoc_newline)
  ultimately show ?thesis
    using Write_empty by blast
qed

theorem Write_no_record_after_last_newline_witness:
  "deref store2 0 = Some (loggers store2 ! 0)
   \<and> output (loggers store2 ! 0) < length (sinks store2)
   \<and> list_all shortLine (splitLines (''foo'' @ [newline]))
   \<and> Write store2 0 (''foo'' @ [newline]) =
       Some (deliver store2 0 [infoPrefix @ ''foo'' @ resetSuffix], 4, None)
   \<and> Write store2 0 [] = Some (store2, 0, None)"
proof -
  have d: "deref store2 0 = Some (loggers store2 ! 0)"
    by (simp add: store2_eq deref_def)
  have o: "output (loggers store2 ! 0) < length (sinks store2)"
    by (simp add: store2_eq)
  have sp: "splitLines (''foo'' @ [newline]) = [''foo'']"
    by (simp add: newline_def)
  have sh: "list_all shortLine (splitLines (''foo'' @ [newline]))"
    unfolding sp by (simp add: scan_defs)
  from Write_no_record_after_last_newline [OF d o sh, of store2 0] d o sh show ?thesis
    unfolding sp by (simp add: store2_eq scan_defs)
qed

end
